theory Spec2Isabelle
  imports Main
begin

section \<open>The limit order book of \<^verbatim>\<open>order_book.py\<close>\<close>

subsection \<open>Data model\<close>

text \<open>
  Modelled from the spec: the class \<^verbatim>\<open>Order\<close> is imported from the module \<^verbatim>\<open>order\<close>,
  which is not among the sources. Its fields are the ones \<^verbatim>\<open>order_book.py\<close> reads and
  writes (\<^verbatim>\<open>id\<close>, \<^verbatim>\<open>symbol\<close>, \<^verbatim>\<open>side\<close>, \<^verbatim>\<open>type\<close>, \<^verbatim>\<open>price\<close>, \<^verbatim>\<open>quantity\<close>). Side and type are
  the strings the code compares them with. The price is optional (a market order has
  none, \<^verbatim>\<open>None\<close> in Python); prices and quantities are Python integers.
  The fields \<^verbatim>\<open>id\<close> and \<^verbatim>\<open>type\<close> are named \<open>oid\<close> and \<open>otype\<close> here.
  In the definitions that follow orders are values and the in-place updates of
  \<^verbatim>\<open>quantity\<close> are record updates: that is the program as long as no order object is at
  two places at once. The definitions on object references further down keep the objects
  apart from their values; the two agree when the objects are distinct.
\<close>

record Order =
  oid :: nat
  symbol :: string
  side :: string
  otype :: string
  price :: "int option"
  quantity :: int

text \<open>An execution report: the dictionary built at each fill, one field per key.\<close>

record report =
  r_order_id :: nat
  r_symbol :: string
  r_side :: string
  r_filled_qty :: int
  r_price :: "int option"
  r_timestamp :: int
  r_status :: string

text \<open>The book: \<^verbatim>\<open>self.symbol\<close>, \<^verbatim>\<open>self.bids\<close>, \<^verbatim>\<open>self.asks\<close>.\<close>

record LimitOrderBook =
  book_symbol :: string
  bids :: "Order list"
  asks :: "Order list"

definition init :: "string \<Rightarrow> LimitOrderBook" where
  "init name = \<lparr>book_symbol = name, bids = [], asks = []\<rparr>"

text \<open>
  Python 3 raises \<^verbatim>\<open>TypeError\<close> when \<^verbatim>\<open>None\<close> is ordered against a number by a comparison;
  \<^verbatim>\<open>==\<close> never raises.
\<close>

datatype error = TypeError

fun py_gt :: "int option \<Rightarrow> int option \<Rightarrow> error + bool" where
  "py_gt (Some a) (Some b) = Inr (a > b)"
| "py_gt _ _ = Inl TypeError"

fun py_lt :: "int option \<Rightarrow> int option \<Rightarrow> error + bool" where
  "py_lt (Some a) (Some b) = Inr (a < b)"
| "py_lt _ _ = Inl TypeError"

text \<open>
  \<^verbatim>\<open>datetime.now(timezone.utc)\<close> reads the wall clock once per fill. The clock is a
  parameter: \<open>clk k\<close> is the value of the \<open>k\<close>-th reading made during a call.
\<close>

type_synonym clock = "nat \<Rightarrow> int"

text \<open>
  One iteration of a matching loop that fills: the values of the loop body's variables
  before and after it (\<^verbatim>\<open>order\<close>, \<^verbatim>\<open>best\<close>, \<^verbatim>\<open>opposite\<close>), \<^verbatim>\<open>fill_qty\<close>, and the two
  reports appended.
\<close>

record fill_event =
  taker_pre :: Order
  maker_pre :: Order
  opp_pre :: "Order list"
  fill_qty :: int
  taker_report :: report
  maker_report :: report
  taker_post :: Order
  maker_post :: Order
  opp_post :: "Order list"

subsection \<open>Market execution\<close>

text \<open>
  The body of the loop of \<^verbatim>\<open>_execute_market\<close>, entered with a non-empty \<open>opp\<close>.
  \<^verbatim>\<open>best\<close> aliases \<^verbatim>\<open>opposite[0]\<close>, so decrementing \<^verbatim>\<open>best.quantity\<close> updates the head of
  the list; \<^verbatim>\<open>pop(0)\<close> then removes it when it is exhausted. On values the head is the
  only position that changes: the object \<^verbatim>\<open>best\<close> is taken to be at no other position and
  not to be the incoming order (\<open>market_fill_r\<close> below makes no such assumption).
\<close>

definition market_fill :: "int \<Rightarrow> Order \<Rightarrow> Order list \<Rightarrow> fill_event" where
  "market_fill timestamp ord opp =
     (let best = hd opp;
          fq = min (quantity ord) (quantity best);
          trade_price = price best;
          ord' = ord\<lparr>quantity := quantity ord - fq\<rparr>;
          best' = best\<lparr>quantity := quantity best - fq\<rparr>;
          market_status =
            (if quantity ord' = 0 \<or> (quantity best' = 0 \<and> length opp = 1)
             then ''filled'' else ''partial_fill'')
      in \<lparr>taker_pre = ord, maker_pre = best, opp_pre = opp, fill_qty = fq,
          taker_report =
            \<lparr>r_order_id = oid ord, r_symbol = symbol ord, r_side = side ord,
             r_filled_qty = fq, r_price = trade_price, r_timestamp = timestamp,
             r_status = market_status\<rparr>,
          maker_report =
            \<lparr>r_order_id = oid best, r_symbol = symbol best, r_side = side best,
             r_filled_qty = fq, r_price = trade_price, r_timestamp = timestamp,
             r_status = (if quantity best' = 0 then ''filled'' else ''partial_fill'')\<rparr>,
          taker_post = ord', maker_post = best',
          opp_post = (if quantity best' = 0 then tl opp else best' # tl opp)\<rparr>)"

text \<open>
  The loop of \<^verbatim>\<open>_execute_market\<close>; \<open>n\<close> counts the clock readings made so far. It
  returns the reports, the incoming order and the opposite list as the loop leaves them.
\<close>

function execute_market_loop ::
  "clock \<Rightarrow> nat \<Rightarrow> Order \<Rightarrow> Order list \<Rightarrow> report list \<Rightarrow> report list \<times> Order \<times> Order list"
where
  "execute_market_loop clk n ord opp reports =
     (if quantity ord > 0 \<and> opp \<noteq> [] then
        (let ev = market_fill (clk n) ord opp
         in execute_market_loop clk (Suc n) (taker_post ev) (opp_post ev)
              (reports @ [taker_report ev, maker_report ev]))
      else (reports, ord, opp))"
  by pat_completeness auto
termination
  by (relation "measure (\<lambda>(clk, n, ord, opp, reports).
        2 * length opp + (if 0 < quantity ord then 1 else 0))")
     (auto simp: market_fill_def Let_def min_def neq_Nil_conv)

declare execute_market_loop.simps [simp del]


text \<open>
  \<^verbatim>\<open>_execute_market\<close>: \<^verbatim>\<open>opposite\<close> aliases \<^verbatim>\<open>self.asks\<close> for a buy order and
  \<^verbatim>\<open>self.bids\<close> for any other side, so the list the loop leaves is that side of the book.
\<close>

definition execute_market ::
  "clock \<Rightarrow> LimitOrderBook \<Rightarrow> Order \<Rightarrow> report list \<times> Order \<times> LimitOrderBook"
where
  "execute_market clk lob ord =
     (if side ord = ''buy'' then
        (case execute_market_loop clk 0 ord (asks lob) [] of
           (reports, ord', opp') \<Rightarrow> (reports, ord', lob\<lparr>asks := opp'\<rparr>))
      else
        (case execute_market_loop clk 0 ord (bids lob) [] of
           (reports, ord', opp') \<Rightarrow> (reports, ord', lob\<lparr>bids := opp'\<rparr>)))"

subsection \<open>Limit matching\<close>

text \<open>
  The two price tests at the head of the loop of \<^verbatim>\<open>_match_limit\<close>: \<open>Inr True\<close> is
  \<^verbatim>\<open>break\<close>. The comparison is evaluated only when the side test before \<^verbatim>\<open>and\<close> holds.
\<close>

definition limit_break :: "Order \<Rightarrow> Order \<Rightarrow> error + bool" where
  "limit_break ord best =
     (case (if side ord = ''buy'' then py_gt (price best) (price ord) else Inr False) of
        Inl e \<Rightarrow> Inl e
      | Inr True \<Rightarrow> Inr True
      | Inr False \<Rightarrow>
          (if side ord = ''sell'' then py_lt (price best) (price ord) else Inr False))"

text \<open>The rest of the loop body of \<^verbatim>\<open>_match_limit\<close>: the fill.\<close>

definition limit_fill :: "int \<Rightarrow> Order \<Rightarrow> Order list \<Rightarrow> fill_event" where
  "limit_fill timestamp ord opp =
     (let best = hd opp;
          fq = min (quantity ord) (quantity best);
          trade_price = price best;
          ord' = ord\<lparr>quantity := quantity ord - fq\<rparr>;
          best' = best\<lparr>quantity := quantity best - fq\<rparr>
      in \<lparr>taker_pre = ord, maker_pre = best, opp_pre = opp, fill_qty = fq,
          taker_report =
            \<lparr>r_order_id = oid ord, r_symbol = symbol ord, r_side = side ord,
             r_filled_qty = fq, r_price = trade_price, r_timestamp = timestamp,
             r_status = (if quantity ord - fq = 0 then ''filled'' else ''partial_fill'')\<rparr>,
          maker_report =
            \<lparr>r_order_id = oid best, r_symbol = symbol best, r_side = side best,
             r_filled_qty = fq, r_price = trade_price, r_timestamp = timestamp,
             r_status = (if quantity best - fq = 0 then ''filled'' else ''partial_fill'')\<rparr>,
          taker_post = ord', maker_post = best',
          opp_post = (if quantity best' = 0 then tl opp else best' # tl opp)\<rparr>)"

text \<open>
  The loop of \<^verbatim>\<open>_match_limit\<close>. A \<^verbatim>\<open>TypeError\<close> raised by a price comparison leaves the
  function at once: the reports are lost, the order and the list stay as the earlier
  iterations left them.
\<close>

function match_limit_loop ::
  "clock \<Rightarrow> nat \<Rightarrow> Order \<Rightarrow> Order list \<Rightarrow> report list
     \<Rightarrow> (error + report list) \<times> Order \<times> Order list"
where
  "match_limit_loop clk n ord opp reports =
     (if quantity ord > 0 \<and> opp \<noteq> [] then
        (case limit_break ord (hd opp) of
           Inl e \<Rightarrow> (Inl e, ord, opp)
         | Inr True \<Rightarrow> (Inr reports, ord, opp)
         | Inr False \<Rightarrow>
             (let ev = limit_fill (clk n) ord opp
              in match_limit_loop clk (Suc n) (taker_post ev) (opp_post ev)
                   (reports @ [taker_report ev, maker_report ev])))
      else (Inr reports, ord, opp))"
  by pat_completeness auto
termination
  by (relation "measure (\<lambda>(clk, n, ord, opp, reports).
        2 * length opp + (if 0 < quantity ord then 1 else 0))")
     (auto simp: limit_fill_def Let_def min_def neq_Nil_conv)

declare match_limit_loop.simps [simp del]

definition match_limit ::
  "clock \<Rightarrow> LimitOrderBook \<Rightarrow> Order \<Rightarrow> (error + report list) \<times> Order \<times> LimitOrderBook"
where
  "match_limit clk lob ord =
     (if side ord = ''buy'' then
        (case match_limit_loop clk 0 ord (asks lob) [] of
           (res, ord', opp') \<Rightarrow> (res, ord', lob\<lparr>asks := opp'\<rparr>))
      else
        (case match_limit_loop clk 0 ord (bids lob) [] of
           (res, ord', opp') \<Rightarrow> (res, ord', lob\<lparr>bids := opp'\<rparr>)))"

subsection \<open>Resting insertion\<close>

text \<open>The inner loop of \<^verbatim>\<open>_insert_resting\<close>: advance past the orders at exactly price \<open>p\<close>.\<close>

function skip_same_price :: "Order list \<Rightarrow> int option \<Rightarrow> nat \<Rightarrow> nat" where
  "skip_same_price book p idx =
     (if idx < length book \<and> price (book ! idx) = p
      then skip_same_price book p (Suc idx) else idx)"
  by pat_completeness auto
termination
  by (relation "measure (\<lambda>(book, p, idx). length book - idx)") auto

declare skip_same_price.simps [simp del]

text \<open>
  The outer loop of \<^verbatim>\<open>_insert_resting\<close>, from index \<open>idx\<close>: the index at which the order
  is inserted, or the \<^verbatim>\<open>TypeError\<close> of a comparison with a missing price.
\<close>

function insertion_index :: "Order \<Rightarrow> Order list \<Rightarrow> nat \<Rightarrow> error + nat" where
  "insertion_index ord book idx =
     (if idx < length book then
        (if side ord = ''buy'' then
           (case py_gt (price (book ! idx)) (price ord) of
              Inl e \<Rightarrow> Inl e
            | Inr True \<Rightarrow> insertion_index ord book (Suc idx)
            | Inr False \<Rightarrow> Inr (skip_same_price book (price ord) idx))
         else
           (case py_lt (price (book ! idx)) (price ord) of
              Inl e \<Rightarrow> Inl e
            | Inr True \<Rightarrow> insertion_index ord book (Suc idx)
            | Inr False \<Rightarrow> Inr (skip_same_price book (price ord) idx)))
      else Inr idx)"
  by pat_completeness auto
termination
  by (relation "measure (\<lambda>(ord, book, idx). length book - idx)") auto

declare insertion_index.simps [simp del]

text \<open>Python's \<^verbatim>\<open>list.insert(idx, x)\<close> for an index \<open>idx \<ge> 0\<close>; beyond the end it appends.\<close>

definition list_insert :: "nat \<Rightarrow> 'a \<Rightarrow> 'a list \<Rightarrow> 'a list" where
  "list_insert idx x xs = take idx xs @ x # drop idx xs"

definition insert_resting :: "LimitOrderBook \<Rightarrow> Order \<Rightarrow> error + LimitOrderBook" where
  "insert_resting lob ord =
     (if side ord = ''buy'' then
        (case insertion_index ord (bids lob) 0 of
           Inl e \<Rightarrow> Inl e
         | Inr idx \<Rightarrow> Inr (lob\<lparr>bids := list_insert idx ord (bids lob)\<rparr>))
      else
        (case insertion_index ord (asks lob) 0 of
           Inl e \<Rightarrow> Inl e
         | Inr idx \<Rightarrow> Inr (lob\<lparr>asks := list_insert idx ord (asks lob)\<rparr>)))"

subsection \<open>Dispatch\<close>

text \<open>
  \<^verbatim>\<open>add_order\<close> returns the reports or the error raised, together with the incoming order
  and the book as the call leaves them (both are mutated in place by the source). The
  \<^verbatim>\<open>limit\<close> branch and the \<^verbatim>\<open>else\<close> branch are written out twice, as in the source.
\<close>

definition add_order ::
  "clock \<Rightarrow> LimitOrderBook \<Rightarrow> Order \<Rightarrow> (error + report list) \<times> Order \<times> LimitOrderBook"
where
  "add_order clk lob ord =
     (if otype ord = ''market'' then
        (case execute_market clk lob ord of
           (reports, ord', lob') \<Rightarrow> (Inr ([] @ reports), ord', lob'))
      else if otype ord = ''limit'' then
        (case match_limit clk lob ord of
           (Inl e, ord', lob') \<Rightarrow> (Inl e, ord', lob')
         | (Inr reports, ord', lob') \<Rightarrow>
             (if quantity ord' > 0 then
                (case insert_resting lob' ord' of
                   Inl e \<Rightarrow> (Inl e, ord', lob')
                 | Inr lob'' \<Rightarrow> (Inr ([] @ reports), ord', lob''))
              else (Inr ([] @ reports), ord', lob')))
      else
        (case match_limit clk lob ord of
           (Inl e, ord', lob') \<Rightarrow> (Inl e, ord', lob')
         | (Inr reports, ord', lob') \<Rightarrow>
             (if quantity ord' > 0 then
                (case insert_resting lob' ord' of
                   Inl e \<Rightarrow> (Inl e, ord', lob')
                 | Inr lob'' \<Rightarrow> (Inr ([] @ reports), ord', lob''))
              else (Inr ([] @ reports), ord', lob'))))"

subsection \<open>The fill events of a call\<close>

text \<open>
  The iterations of the two matching loops, listed in order: the same recursion as the
  loops, collecting the body's variables instead of the reports.
\<close>

function market_events :: "clock \<Rightarrow> nat \<Rightarrow> Order \<Rightarrow> Order list \<Rightarrow> fill_event list" where
  "market_events clk n ord opp =
     (if quantity ord > 0 \<and> opp \<noteq> [] then
        (let ev = market_fill (clk n) ord opp
         in ev # market_events clk (Suc n) (taker_post ev) (opp_post ev))
      else [])"
  by pat_completeness auto
termination
  by (relation "measure (\<lambda>(clk, n, ord, opp).
        2 * length opp + (if 0 < quantity ord then 1 else 0))")
     (auto simp: market_fill_def Let_def min_def neq_Nil_conv)

declare market_events.simps [simp del]

function limit_events :: "clock \<Rightarrow> nat \<Rightarrow> Order \<Rightarrow> Order list \<Rightarrow> fill_event list" where
  "limit_events clk n ord opp =
     (if quantity ord > 0 \<and> opp \<noteq> [] then
        (case limit_break ord (hd opp) of
           Inl e \<Rightarrow> []
         | Inr True \<Rightarrow> []
         | Inr False \<Rightarrow>
             (let ev = limit_fill (clk n) ord opp
              in ev # limit_events clk (Suc n) (taker_post ev) (opp_post ev)))
      else [])"
  by pat_completeness auto
termination
  by (relation "measure (\<lambda>(clk, n, ord, opp).
        2 * length opp + (if 0 < quantity ord then 1 else 0))")
     (auto simp: limit_fill_def Let_def min_def neq_Nil_conv)

declare limit_events.simps [simp del]

definition opposite :: "LimitOrderBook \<Rightarrow> Order \<Rightarrow> Order list" where
  "opposite lob ord = (if side ord = ''buy'' then asks lob else bids lob)"

definition add_order_events :: "clock \<Rightarrow> LimitOrderBook \<Rightarrow> Order \<Rightarrow> fill_event list" where
  "add_order_events clk lob ord =
     (if otype ord = ''market'' then market_events clk 0 ord (opposite lob ord)
      else limit_events clk 0 ord (opposite lob ord))"

definition event_reports :: "fill_event list \<Rightarrow> report list" where
  "event_reports evs = concat (map (\<lambda>ev. [taker_report ev, maker_report ev]) evs)"


subsection \<open>The book as lists of object references\<close>

text \<open>
  The book of the source holds references to order objects, and the caller keeps the
  reference it submits. Here a reference is a number, the heap gives the object behind
  each reference, and the two sides of the book are lists of references: decrementing
  \<^verbatim>\<open>best.quantity\<close> changes the object at every position that refers to it, and
  \<^verbatim>\<open>pop(0)\<close> removes one position.
\<close>

type_synonym ref = nat
type_synonym heap = "ref \<Rightarrow> Order"

record RefBook =
  ref_symbol :: string
  ref_bids :: "ref list"
  ref_asks :: "ref list"

text \<open>\<^verbatim>\<open>x.quantity -= n\<close> on the object behind \<open>r\<close>.\<close>

definition dec_quantity :: "heap \<Rightarrow> ref \<Rightarrow> int \<Rightarrow> heap" where
  "dec_quantity h r n = h(r := (h r)\<lparr>quantity := quantity (h r) - n\<rparr>)"

text \<open>
  The body of the loop of \<^verbatim>\<open>_execute_market\<close> on references: the two decrements in
  the order of the source, then the status and the reports read from the objects, then
  the \<^verbatim>\<open>pop(0)\<close>.
\<close>

definition market_fill_r ::
  "int \<Rightarrow> heap \<Rightarrow> ref \<Rightarrow> ref list \<Rightarrow> report list \<times> heap \<times> ref list"
where
  "market_fill_r timestamp h t opp =
     (let best = hd opp;
          fq = min (quantity (h t)) (quantity (h best));
          trade_price = price (h best);
          h1 = dec_quantity h t fq;
          h2 = dec_quantity h1 best fq;
          market_status =
            (if quantity (h2 t) = 0 \<or> (quantity (h2 best) = 0 \<and> length opp = 1)
             then ''filled'' else ''partial_fill'')
      in ([\<lparr>r_order_id = oid (h2 t), r_symbol = symbol (h2 t), r_side = side (h2 t),
             r_filled_qty = fq, r_price = trade_price, r_timestamp = timestamp,
             r_status = market_status\<rparr>,
           \<lparr>r_order_id = oid (h2 best), r_symbol = symbol (h2 best), r_side = side (h2 best),
             r_filled_qty = fq, r_price = trade_price, r_timestamp = timestamp,
             r_status = (if quantity (h2 best) = 0 then ''filled'' else ''partial_fill'')\<rparr>],
          h2,
          if quantity (h2 best) = 0 then tl opp else opp))"

function execute_market_loop_r ::
  "clock \<Rightarrow> nat \<Rightarrow> heap \<Rightarrow> ref \<Rightarrow> ref list \<Rightarrow> report list \<Rightarrow> report list \<times> heap \<times> ref list"
where
  "execute_market_loop_r clk n h t opp reports =
     (if quantity (h t) > 0 \<and> opp \<noteq> [] then
        (case market_fill_r (clk n) h t opp of
           (rs, h', opp') \<Rightarrow> execute_market_loop_r clk (Suc n) h' t opp' (reports @ rs))
      else (reports, h, opp))"
  by pat_completeness auto
termination
  by (relation "measure (\<lambda>(clk, n, h, t, opp, reports).
        2 * length opp + (if 0 < quantity (h t) then 1 else 0))")
     (auto simp: market_fill_r_def dec_quantity_def Let_def min_def neq_Nil_conv
           split: if_splits)

declare execute_market_loop_r.simps [simp del]

definition execute_market_r ::
  "clock \<Rightarrow> heap \<Rightarrow> RefBook \<Rightarrow> ref \<Rightarrow> report list \<times> heap \<times> RefBook"
where
  "execute_market_r clk h lob t =
     (if side (h t) = ''buy'' then
        (case execute_market_loop_r clk 0 h t (ref_asks lob) [] of
           (reports, h', opp') \<Rightarrow> (reports, h', lob\<lparr>ref_asks := opp'\<rparr>))
      else
        (case execute_market_loop_r clk 0 h t (ref_bids lob) [] of
           (reports, h', opp') \<Rightarrow> (reports, h', lob\<lparr>ref_bids := opp'\<rparr>)))"

text \<open>
  The fill of \<^verbatim>\<open>_match_limit\<close> on references: the reports are built before the
  decrements, from the quantities the objects have then.
\<close>

definition limit_fill_r ::
  "int \<Rightarrow> heap \<Rightarrow> ref \<Rightarrow> ref list \<Rightarrow> report list \<times> heap \<times> ref list"
where
  "limit_fill_r timestamp h t opp =
     (let best = hd opp;
          fq = min (quantity (h t)) (quantity (h best));
          trade_price = price (h best);
          taker =
            \<lparr>r_order_id = oid (h t), r_symbol = symbol (h t), r_side = side (h t),
             r_filled_qty = fq, r_price = trade_price, r_timestamp = timestamp,
             r_status = (if quantity (h t) - fq = 0 then ''filled'' else ''partial_fill'')\<rparr>;
          maker =
            \<lparr>r_order_id = oid (h best), r_symbol = symbol (h best), r_side = side (h best),
             r_filled_qty = fq, r_price = trade_price, r_timestamp = timestamp,
             r_status = (if quantity (h best) - fq = 0 then ''filled'' else ''partial_fill'')\<rparr>;
          h1 = dec_quantity h t fq;
          h2 = dec_quantity h1 best fq
      in ([taker, maker], h2, if quantity (h2 best) = 0 then tl opp else opp))"

function match_limit_loop_r ::
  "clock \<Rightarrow> nat \<Rightarrow> heap \<Rightarrow> ref \<Rightarrow> ref list \<Rightarrow> report list
     \<Rightarrow> (error + report list) \<times> heap \<times> ref list"
where
  "match_limit_loop_r clk n h t opp reports =
     (if quantity (h t) > 0 \<and> opp \<noteq> [] then
        (case limit_break (h t) (h (hd opp)) of
           Inl e \<Rightarrow> (Inl e, h, opp)
         | Inr True \<Rightarrow> (Inr reports, h, opp)
         | Inr False \<Rightarrow>
             (case limit_fill_r (clk n) h t opp of
                (rs, h', opp') \<Rightarrow> match_limit_loop_r clk (Suc n) h' t opp' (reports @ rs)))
      else (Inr reports, h, opp))"
  by pat_completeness auto
termination
  by (relation "measure (\<lambda>(clk, n, h, t, opp, reports).
        2 * length opp + (if 0 < quantity (h t) then 1 else 0))")
     (auto simp: limit_fill_r_def dec_quantity_def Let_def min_def neq_Nil_conv
           split: if_splits)

declare match_limit_loop_r.simps [simp del]

definition match_limit_r ::
  "clock \<Rightarrow> heap \<Rightarrow> RefBook \<Rightarrow> ref \<Rightarrow> (error + report list) \<times> heap \<times> RefBook"
where
  "match_limit_r clk h lob t =
     (if side (h t) = ''buy'' then
        (case match_limit_loop_r clk 0 h t (ref_asks lob) [] of
           (res, h', opp') \<Rightarrow> (res, h', lob\<lparr>ref_asks := opp'\<rparr>))
      else
        (case match_limit_loop_r clk 0 h t (ref_bids lob) [] of
           (res, h', opp') \<Rightarrow> (res, h', lob\<lparr>ref_bids := opp'\<rparr>)))"

text \<open>
  \<^verbatim>\<open>_insert_resting\<close> changes no object: its scan reads the prices of the objects in the
  list, so the index is the one of the scan over their values, and the reference is
  inserted there.
\<close>

definition insert_resting_r :: "heap \<Rightarrow> RefBook \<Rightarrow> ref \<Rightarrow> error + RefBook" where
  "insert_resting_r h lob t =
     (if side (h t) = ''buy'' then
        (case insertion_index (h t) (map h (ref_bids lob)) 0 of
           Inl e \<Rightarrow> Inl e
         | Inr idx \<Rightarrow> Inr (lob\<lparr>ref_bids := list_insert idx t (ref_bids lob)\<rparr>))
      else
        (case insertion_index (h t) (map h (ref_asks lob)) 0 of
           Inl e \<Rightarrow> Inl e
         | Inr idx \<Rightarrow> Inr (lob\<lparr>ref_asks := list_insert idx t (ref_asks lob)\<rparr>)))"

definition add_order_r ::
  "clock \<Rightarrow> heap \<Rightarrow> RefBook \<Rightarrow> ref \<Rightarrow> (error + report list) \<times> heap \<times> RefBook"
where
  "add_order_r clk h lob t =
     (if otype (h t) = ''market'' then
        (case execute_market_r clk h lob t of
           (reports, h', lob') \<Rightarrow> (Inr ([] @ reports), h', lob'))
      else if otype (h t) = ''limit'' then
        (case match_limit_r clk h lob t of
           (Inl e, h', lob') \<Rightarrow> (Inl e, h', lob')
         | (Inr reports, h', lob') \<Rightarrow>
             (if quantity (h' t) > 0 then
                (case insert_resting_r h' lob' t of
                   Inl e \<Rightarrow> (Inl e, h', lob')
                 | Inr lob'' \<Rightarrow> (Inr ([] @ reports), h', lob''))
              else (Inr ([] @ reports), h', lob')))
      else
        (case match_limit_r clk h lob t of
           (Inl e, h', lob') \<Rightarrow> (Inl e, h', lob')
         | (Inr reports, h', lob') \<Rightarrow>
             (if quantity (h' t) > 0 then
                (case insert_resting_r h' lob' t of
                   Inl e \<Rightarrow> (Inl e, h', lob')
                 | Inr lob'' \<Rightarrow> (Inr ([] @ reports), h', lob''))
              else (Inr ([] @ reports), h', lob'))))"

text \<open>The book of values that a book of references stands for in a heap.\<close>

definition abs_book :: "heap \<Rightarrow> RefBook \<Rightarrow> LimitOrderBook" where
  "abs_book h lob =
     \<lparr>book_symbol = ref_symbol lob, bids = map h (ref_bids lob), asks = map h (ref_asks lob)\<rparr>"

text \<open>Every resting order object has a remaining quantity \<open>> 0\<close>.\<close>

definition resting_positive :: "heap \<Rightarrow> RefBook \<Rightarrow> bool" where
  "resting_positive h lob = list_all (\<lambda>r. 0 < quantity (h r)) (ref_bids lob @ ref_asks lob)"

definition init_r :: "string \<Rightarrow> RefBook" where
  "init_r name = \<lparr>ref_symbol = name, ref_bids = [], ref_asks = []\<rparr>"

subsection \<open>Book invariants\<close>

text \<open>Comparison of two prices that are both present.\<close>

fun price_lt :: "int option \<Rightarrow> int option \<Rightarrow> bool" where
  "price_lt (Some a) (Some b) = (a < b)"
| "price_lt _ _ = False"

fun price_le :: "int option \<Rightarrow> int option \<Rightarrow> bool" where
  "price_le (Some a) (Some b) = (a \<le> b)"
| "price_le _ _ = False"

definition has_price :: "Order \<Rightarrow> bool" where
  "has_price x = (price x \<noteq> None)"

text \<open>
  A side is sorted when every resting order has a price and the prices never improve
  along the list: bids descend, asks ascend. Orders at one price may follow each other;
  their position is their arrival order.
\<close>

definition bids_sorted :: "Order list \<Rightarrow> bool" where
  "bids_sorted bs =
     (list_all has_price bs \<and> sorted_wrt (\<lambda>a b. price_le (price b) (price a)) bs)"

definition asks_sorted :: "Order list \<Rightarrow> bool" where
  "asks_sorted as =
     (list_all has_price as \<and> sorted_wrt (\<lambda>a b. price_le (price a) (price b)) as)"

definition all_positive :: "Order list \<Rightarrow> bool" where
  "all_positive xs = list_all (\<lambda>x. 0 < quantity x) xs"

definition not_crossed :: "LimitOrderBook \<Rightarrow> bool" where
  "not_crossed lob =
     (bids lob \<noteq> [] \<and> asks lob \<noteq> [] \<longrightarrow>
        price_lt (price (hd (bids lob))) (price (hd (asks lob))))"

definition book_inv :: "LimitOrderBook \<Rightarrow> bool" where
  "book_inv lob =
     (bids_sorted (bids lob) \<and> asks_sorted (asks lob) \<and>
      all_positive (bids lob) \<and> all_positive (asks lob) \<and> not_crossed lob)"

text \<open>
  The precondition on an incoming order: a positive quantity and, unless it is a market
  order, a price.
\<close>

definition order_ok :: "Order \<Rightarrow> bool" where
  "order_ok ord = (0 < quantity ord \<and> (otype ord \<noteq> ''market'' \<longrightarrow> has_price ord))"

text \<open>
  \<open>strictly_better old new\<close>: the resting order \<open>old\<close> has a strictly better price than
  the incoming order \<open>new\<close> on the side \<open>new\<close> goes to. For a bid a better price is a
  higher one, for an ask a lower one; \<^verbatim>\<open>_insert_resting\<close> treats every side other than
  \<^verbatim>\<open>buy\<close> as the ask side.
\<close>

definition strictly_better :: "Order \<Rightarrow> Order \<Rightarrow> bool" where
  "strictly_better old new =
     (if side new = ''buy'' then price_lt (price new) (price old)
      else price_lt (price old) (price new))"

definition side_sorted :: "Order \<Rightarrow> Order list \<Rightarrow> bool" where
  "side_sorted new book =
     (if side new = ''buy'' then bids_sorted book else asks_sorted book)"

definition own_side :: "LimitOrderBook \<Rightarrow> Order \<Rightarrow> Order list" where
  "own_side lob ord = (if side ord = ''buy'' then bids lob else asks lob)"

text \<open>
  The side an order's own list and its opposite list are written back to: both matching
  loops and \<^verbatim>\<open>_insert_resting\<close> work on an alias of one of the two lists of the book.
\<close>

definition set_opposite :: "LimitOrderBook \<Rightarrow> Order \<Rightarrow> Order list \<Rightarrow> LimitOrderBook" where
  "set_opposite lob ord xs = (if side ord = ''buy'' then lob\<lparr>asks := xs\<rparr> else lob\<lparr>bids := xs\<rparr>)"

definition set_own :: "LimitOrderBook \<Rightarrow> Order \<Rightarrow> Order list \<Rightarrow> LimitOrderBook" where
  "set_own lob ord xs = (if side ord = ''buy'' then lob\<lparr>bids := xs\<rparr> else lob\<lparr>asks := xs\<rparr>)"

text \<open>
  The opposite list of an incoming order is sorted the other way round: the asks for a
  buy order, the bids for every other side.
\<close>

definition opp_sorted :: "Order \<Rightarrow> Order list \<Rightarrow> bool" where
  "opp_sorted new book =
     (if side new = ''buy'' then asks_sorted book else bids_sorted book)"

text \<open>
  The price of a priced order as an integer that grows as the price gets worse on the
  side an order of side \<open>sd\<close> rests on: the negated price for bids, the price for asks.
  It is read only for orders that have a price.
\<close>

definition rank :: "string \<Rightarrow> Order \<Rightarrow> int" where
  "rank sd x = (if sd = ''buy'' then - the (price x) else the (price x))"

text \<open>The invariant of both matching loops on a book that satisfies \<open>book_inv\<close>.\<close>

definition loop_inv :: "Order \<Rightarrow> Order list \<Rightarrow> Order \<Rightarrow> Order list \<Rightarrow> bool" where
  "loop_inv ord opp0 x xs =
     ((\<exists>q. x = ord\<lparr>quantity := q\<rparr>) \<and> list_all has_price xs \<and>
      sorted_wrt (\<lambda>a b. rank (side ord) b \<le> rank (side ord) a) xs \<and>
      (xs \<noteq> [] \<longrightarrow> opp0 \<noteq> [] \<and> rank (side ord) (hd xs) \<le> rank (side ord) (hd opp0)) \<and>
      all_positive xs)"

subsection \<open>The limit path as the specification words it\<close>

text \<open>
  Limit matching first, then resting insertion of any remainder with quantity \<open>> 0\<close>.
\<close>

definition limit_path ::
  "clock \<Rightarrow> LimitOrderBook \<Rightarrow> Order \<Rightarrow> (error + report list) \<times> Order \<times> LimitOrderBook"
where
  "limit_path clk lob ord =
     (case match_limit clk lob ord of
        (Inl e, ord', lob') \<Rightarrow> (Inl e, ord', lob')
      | (Inr reports, ord', lob') \<Rightarrow>
          (if 0 < quantity ord' then
             (case insert_resting lob' ord' of
                Inl e \<Rightarrow> (Inl e, ord', lob')
              | Inr lob'' \<Rightarrow> (Inr reports, ord', lob''))
           else (Inr reports, ord', lob')))"

text \<open>
  Two lists that agree position by position, except that where the first holds \<open>o1\<close>
  the second may hold \<open>o2\<close>.
\<close>

definition same_but :: "Order \<Rightarrow> Order \<Rightarrow> Order list \<Rightarrow> Order list \<Rightarrow> bool" where
  "same_but o1 o2 xs ys = list_all2 (\<lambda>a b. b = a \<or> (a = o1 \<and> b = o2)) xs ys"

subsection \<open>Example books and orders\<close>

definition example_clock :: clock where
  "example_clock = (\<lambda>k. 1000 + int k)"

definition example_book :: LimitOrderBook where
  "example_book =
     \<lparr>book_symbol = ''ACME'',
      bids = [\<lparr>oid = 1, symbol = ''ACME'', side = ''buy'', otype = ''limit'',
                price = Some 10, quantity = 100\<rparr>,
              \<lparr>oid = 9, symbol = ''ACME'', side = ''buy'', otype = ''limit'',
                price = Some 9, quantity = 40\<rparr>],
      asks = [\<lparr>oid = 2, symbol = ''ACME'', side = ''sell'', otype = ''limit'',
                price = Some 12, quantity = 30\<rparr>,
              \<lparr>oid = 3, symbol = ''ACME'', side = ''sell'', otype = ''limit'',
                price = Some 12, quantity = 20\<rparr>,
              \<lparr>oid = 4, symbol = ''ACME'', side = ''sell'', otype = ''stop'',
                price = Some 15, quantity = 50\<rparr>]\<rparr>"

definition example_market_buy :: Order where
  "example_market_buy =
     \<lparr>oid = 5, symbol = ''ACME'', side = ''buy'', otype = ''market'',
      price = None, quantity = 120\<rparr>"

definition example_limit_buy :: Order where
  "example_limit_buy =
     \<lparr>oid = 6, symbol = ''ACME'', side = ''buy'', otype = ''limit'',
      price = Some 12, quantity = 40\<rparr>"

definition example_stop_sell :: Order where
  "example_stop_sell =
     \<lparr>oid = 7, symbol = ''ACME'', side = ''sell'', otype = ''stop'',
      price = Some 12, quantity = 25\<rparr>"

definition example_limit_sell :: Order where
  "example_limit_sell =
     \<lparr>oid = 10, symbol = ''ACME'', side = ''sell'', otype = ''limit'',
      price = Some 10, quantity = 150\<rparr>"

definition example_empty_limit :: Order where
  "example_empty_limit =
     \<lparr>oid = 8, symbol = ''ACME'', side = ''sell'', otype = ''limit'',
      price = Some 9, quantity = 0\<rparr>"

text \<open>
  The example book as objects: reference \<open>r\<close> is the order with identifier \<open>r\<close>.
\<close>

definition example_objects :: heap where
  "example_objects =
     (\<lambda>r. example_empty_limit)
     (1 := bids example_book ! 0, 9 := bids example_book ! 1,
      2 := asks example_book ! 0, 3 := asks example_book ! 1, 4 := asks example_book ! 2,
      5 := example_market_buy, 6 := example_limit_buy, 7 := example_stop_sell,
      10 := example_limit_sell)"

definition example_ref_book :: RefBook where
  "example_ref_book = \<lparr>ref_symbol = ''ACME'', ref_bids = [1, 9], ref_asks = [2, 3, 4]\<rparr>"

text \<open>
  One buy order object (reference 1) submitted twice to an empty book, then a market
  sell order (reference 2) for its whole quantity.
\<close>

definition resubmit_heap :: heap where
  "resubmit_heap =
     (\<lambda>r. \<lparr>oid = r, symbol = ''ACME'', side = ''sell'', otype = ''market'',
            price = None, quantity = 10\<rparr>)
     (1 := \<lparr>oid = 1, symbol = ''ACME'', side = ''buy'', otype = ''limit'',
            price = Some 10, quantity = 10\<rparr>)"

definition submitted_twice :: "(error + report list) \<times> heap \<times> RefBook" where
  "submitted_twice =
     (case add_order_r example_clock resubmit_heap (init_r ''ACME'') 1 of
        (res1, h1, lob1) \<Rightarrow> add_order_r example_clock h1 lob1 1)"

definition submitted_twice_then_sold :: "(error + report list) \<times> heap \<times> RefBook" where
  "submitted_twice_then_sold =
     add_order_r example_clock (fst (snd submitted_twice)) (snd (snd submitted_twice)) 2"

section \<open>Properties\<close>

subsection \<open>One fill\<close>

lemma market_fill_pre [simp]:
  "taker_pre (market_fill t ord opp) = ord"
  "maker_pre (market_fill t ord opp) = hd opp"
  "opp_pre (market_fill t ord opp) = opp"
  "fill_qty (market_fill t ord opp) = min (quantity ord) (quantity (hd opp))"
  by (simp_all add: market_fill_def Let_def)

lemma limit_fill_pre [simp]:
  "taker_pre (limit_fill t ord opp) = ord"
  "maker_pre (limit_fill t ord opp) = hd opp"
  "opp_pre (limit_fill t ord opp) = opp"
  "fill_qty (limit_fill t ord opp) = min (quantity ord) (quantity (hd opp))"
  by (simp_all add: limit_fill_def Let_def)

lemma market_fill_post:
  "taker_post (market_fill t ord opp) =
     ord\<lparr>quantity := quantity ord - min (quantity ord) (quantity (hd opp))\<rparr>"
  "maker_post (market_fill t ord opp) =
     (hd opp)\<lparr>quantity := quantity (hd opp) - min (quantity ord) (quantity (hd opp))\<rparr>"
  "opp_post (market_fill t ord opp) =
     (if quantity (hd opp) \<le> quantity ord then tl opp
      else (hd opp)\<lparr>quantity := quantity (hd opp) - quantity ord\<rparr> # tl opp)"
  by (simp_all add: market_fill_def Let_def min_def)

lemma limit_fill_post:
  "taker_post (limit_fill t ord opp) = taker_post (market_fill t ord opp)"
  "maker_post (limit_fill t ord opp) = maker_post (market_fill t ord opp)"
  "opp_post (limit_fill t ord opp) = opp_post (market_fill t ord opp)"
  by (simp_all add: limit_fill_def market_fill_def Let_def)

subsection \<open>Unfolding the loops\<close>

lemma execute_market_loop_stop:
  "\<not> (0 < quantity ord \<and> opp \<noteq> []) \<Longrightarrow>
   execute_market_loop clk n ord opp reports = (reports, ord, opp)"
  by (subst execute_market_loop.simps) auto

lemma execute_market_loop_fill:
  "0 < quantity ord \<Longrightarrow> opp \<noteq> [] \<Longrightarrow>
   execute_market_loop clk n ord opp reports =
     execute_market_loop clk (Suc n) (taker_post (market_fill (clk n) ord opp))
       (opp_post (market_fill (clk n) ord opp))
       (reports @ [taker_report (market_fill (clk n) ord opp),
                   maker_report (market_fill (clk n) ord opp)])"
  by (subst execute_market_loop.simps) (simp add: Let_def)

lemma match_limit_loop_stop:
  "\<not> (0 < quantity ord \<and> opp \<noteq> []) \<Longrightarrow>
   match_limit_loop clk n ord opp reports = (Inr reports, ord, opp)"
  by (subst match_limit_loop.simps) auto

lemma match_limit_loop_raise:
  "0 < quantity ord \<Longrightarrow> opp \<noteq> [] \<Longrightarrow> limit_break ord (hd opp) = Inl e \<Longrightarrow>
   match_limit_loop clk n ord opp reports = (Inl e, ord, opp)"
  by (subst match_limit_loop.simps) simp

lemma match_limit_loop_break:
  "0 < quantity ord \<Longrightarrow> opp \<noteq> [] \<Longrightarrow> limit_break ord (hd opp) = Inr True \<Longrightarrow>
   match_limit_loop clk n ord opp reports = (Inr reports, ord, opp)"
  by (subst match_limit_loop.simps) simp

lemma match_limit_loop_fill:
  "0 < quantity ord \<Longrightarrow> opp \<noteq> [] \<Longrightarrow> limit_break ord (hd opp) = Inr False \<Longrightarrow>
   match_limit_loop clk n ord opp reports =
     match_limit_loop clk (Suc n) (taker_post (limit_fill (clk n) ord opp))
       (opp_post (limit_fill (clk n) ord opp))
       (reports @ [taker_report (limit_fill (clk n) ord opp),
                   maker_report (limit_fill (clk n) ord opp)])"
  by (subst match_limit_loop.simps) (simp add: Let_def)

lemma market_events_stop:
  "\<not> (0 < quantity ord \<and> opp \<noteq> []) \<Longrightarrow> market_events clk n ord opp = []"
  by (subst market_events.simps) auto

lemma market_events_fill:
  "0 < quantity ord \<Longrightarrow> opp \<noteq> [] \<Longrightarrow>
   market_events clk n ord opp =
     market_fill (clk n) ord opp #
     market_events clk (Suc n) (taker_post (market_fill (clk n) ord opp))
       (opp_post (market_fill (clk n) ord opp))"
  by (subst market_events.simps) (simp add: Let_def)

lemma limit_events_stop:
  "\<not> (0 < quantity ord \<and> opp \<noteq> []) \<Longrightarrow> limit_events clk n ord opp = []"
  by (subst limit_events.simps) auto

lemma limit_events_raise:
  "limit_break ord (hd opp) = Inl e \<Longrightarrow> limit_events clk n ord opp = []"
  by (subst limit_events.simps) simp

lemma limit_events_break:
  "limit_break ord (hd opp) = Inr True \<Longrightarrow> limit_events clk n ord opp = []"
  by (subst limit_events.simps) simp

lemma limit_events_fill:
  "0 < quantity ord \<Longrightarrow> opp \<noteq> [] \<Longrightarrow> limit_break ord (hd opp) = Inr False \<Longrightarrow>
   limit_events clk n ord opp =
     limit_fill (clk n) ord opp #
     limit_events clk (Suc n) (taker_post (limit_fill (clk n) ord opp))
       (opp_post (limit_fill (clk n) ord opp))"
  by (subst limit_events.simps) (simp add: Let_def)

lemma limit_break_cases:
  obtains (raise) e where "limit_break ord best = Inl e"
  | (break) "limit_break ord best = Inr True"
  | (fill) "limit_break ord best = Inr False"
  by (cases "limit_break ord best") auto

subsection \<open>Loop rules\<close>

lemma execute_market_loop_rule:
  assumes "I ord opp"
    and "\<And>t x xs. I x xs \<Longrightarrow> 0 < quantity x \<Longrightarrow> xs \<noteq> [] \<Longrightarrow>
           I (taker_post (market_fill t x xs)) (opp_post (market_fill t x xs))"
  shows "case execute_market_loop clk n ord opp reports of
           (rs, ord', opp') \<Rightarrow> I ord' opp' \<and> (quantity ord' \<le> 0 \<or> opp' = [])"
  using assms(1)
proof (induction clk n ord opp reports rule: execute_market_loop.induct)
  case (1 clk n ord opp reports)
  show ?case
  proof (cases "0 < quantity ord \<and> opp \<noteq> []")
    case True
    then have "I (taker_post (market_fill (clk n) ord opp)) (opp_post (market_fill (clk n) ord opp))"
      using assms(2) "1.prems" by blast
    from "1.IH" [OF True refl this] True show ?thesis
      by (simp add: execute_market_loop_fill)
  next
    case False
    with "1.prems" show ?thesis
      by (auto simp: execute_market_loop_stop)
  qed
qed

lemma match_limit_loop_rule:
  assumes "I ord opp"
    and "\<And>t x xs. I x xs \<Longrightarrow> 0 < quantity x \<Longrightarrow> xs \<noteq> [] \<Longrightarrow> limit_break x (hd xs) = Inr False \<Longrightarrow>
           I (taker_post (limit_fill t x xs)) (opp_post (limit_fill t x xs))"
  shows "case match_limit_loop clk n ord opp reports of
           (Inl e, ord', opp') \<Rightarrow>
              I ord' opp' \<and> 0 < quantity ord' \<and> opp' \<noteq> [] \<and> limit_break ord' (hd opp') = Inl e
         | (Inr rs, ord', opp') \<Rightarrow>
              I ord' opp' \<and>
              (quantity ord' \<le> 0 \<or> opp' = [] \<or> limit_break ord' (hd opp') = Inr True)"
  using assms(1)
proof (induction clk n ord opp reports rule: match_limit_loop.induct)
  case (1 clk n ord opp reports)
  show ?case
  proof (cases "0 < quantity ord \<and> opp \<noteq> []")
    case True
    then have go: "0 < quantity ord" "opp \<noteq> []" by simp_all
    show ?thesis
    proof (cases ord "hd opp" rule: limit_break_cases)
      case (raise e)
      with go "1.prems" show ?thesis
        by (simp add: match_limit_loop_raise)
    next
      case break
      with go "1.prems" show ?thesis
        by (simp add: match_limit_loop_break)
    next
      case fill
      have "I (taker_post (limit_fill (clk n) ord opp)) (opp_post (limit_fill (clk n) ord opp))"
        using assms(2) "1.prems" go fill by blast
      from "1.IH" [OF True fill refl refl this] show ?thesis
        using go fill by (simp add: match_limit_loop_fill)
    qed
  next
    case False
    with "1.prems" show ?thesis
      by (auto simp: match_limit_loop_stop)
  qed
qed

lemma execute_market_loop_reports:
  "fst (execute_market_loop clk n ord opp reports) =
     reports @ event_reports (market_events clk n ord opp)"
proof (induction clk n ord opp reports rule: execute_market_loop.induct)
  case (1 clk n ord opp reports)
  show ?case
  proof (cases "0 < quantity ord \<and> opp \<noteq> []")
    case True
    from "1.IH" [OF True refl] True show ?thesis
      by (simp add: execute_market_loop_fill market_events_fill event_reports_def)
  next
    case False
    then show ?thesis
      by (simp add: execute_market_loop_stop market_events_stop event_reports_def)
  qed
qed

lemma match_limit_loop_reports:
  "fst (match_limit_loop clk n ord opp reports) = Inr rs \<Longrightarrow>
     rs = reports @ event_reports (limit_events clk n ord opp)"
proof (induction clk n ord opp reports rule: match_limit_loop.induct)
  case (1 clk n ord opp reports)
  show ?case
  proof (cases "0 < quantity ord \<and> opp \<noteq> []")
    case True
    then have go: "0 < quantity ord" "opp \<noteq> []" by simp_all
    show ?thesis
    proof (cases ord "hd opp" rule: limit_break_cases)
      case (raise e)
      with go "1.prems" show ?thesis
        by (simp add: match_limit_loop_raise)
    next
      case break
      with go "1.prems" show ?thesis
        by (simp add: match_limit_loop_break limit_events_break event_reports_def)
    next
      case fill
      have "fst (match_limit_loop clk (Suc n) (taker_post (limit_fill (clk n) ord opp))
               (opp_post (limit_fill (clk n) ord opp))
               (reports @ [taker_report (limit_fill (clk n) ord opp),
                           maker_report (limit_fill (clk n) ord opp)])) = Inr rs"
        using "1.prems" go fill by (simp add: match_limit_loop_fill)
      from "1.IH" [OF True fill refl refl this] show ?thesis
        using go fill by (simp add: limit_events_fill event_reports_def)
    qed
  next
    case False
    with "1.prems" show ?thesis
      by (simp add: match_limit_loop_stop limit_events_stop event_reports_def)
  qed
qed

lemma market_events_rule:
  assumes "\<And>t x xs. 0 < quantity x \<Longrightarrow> xs \<noteq> [] \<Longrightarrow> P (market_fill t x xs)"
  shows "\<forall>ev\<in>set (market_events clk n ord opp). P ev"
proof (induction clk n ord opp rule: market_events.induct)
  case (1 clk n ord opp)
  show ?case
  proof (cases "0 < quantity ord \<and> opp \<noteq> []")
    case True
    from "1.IH" [OF True refl] True assms show ?thesis
      by (simp add: market_events_fill)
  next
    case False
    then show ?thesis
      by (simp add: market_events_stop)
  qed
qed

lemma limit_events_rule:
  assumes "\<And>t x xs. 0 < quantity x \<Longrightarrow> xs \<noteq> [] \<Longrightarrow> limit_break x (hd xs) = Inr False \<Longrightarrow>
             P (limit_fill t x xs)"
  shows "\<forall>ev\<in>set (limit_events clk n ord opp). P ev"
proof (induction clk n ord opp rule: limit_events.induct)
  case (1 clk n ord opp)
  show ?case
  proof (cases "0 < quantity ord \<and> opp \<noteq> []")
    case True
    then have go: "0 < quantity ord" "opp \<noteq> []" by simp_all
    show ?thesis
    proof (cases ord "hd opp" rule: limit_break_cases)
      case (raise e)
      then show ?thesis by (simp add: limit_events_raise)
    next
      case break
      then show ?thesis by (simp add: limit_events_break)
    next
      case fill
      from "1.IH" [OF True fill refl refl] show ?thesis
        using go fill assms by (simp add: limit_events_fill)
    qed
  next
    case False
    then show ?thesis
      by (simp add: limit_events_stop)
  qed
qed


subsection \<open>Properties of every fill event\<close>

lemma add_order_events_cases:
  assumes "\<And>t x xs. otype ord = ''market'' \<Longrightarrow> 0 < quantity x \<Longrightarrow> xs \<noteq> [] \<Longrightarrow>
             P (market_fill t x xs)"
    and "\<And>t x xs. otype ord \<noteq> ''market'' \<Longrightarrow> 0 < quantity x \<Longrightarrow> xs \<noteq> [] \<Longrightarrow>
             limit_break x (hd xs) = Inr False \<Longrightarrow> P (limit_fill t x xs)"
  shows "\<forall>ev\<in>set (add_order_events clk lob ord). P ev"
proof (cases "otype ord = ''market''")
  case True
  show ?thesis
    unfolding add_order_events_def if_P [OF True]
    by (rule market_events_rule) (use True assms(1) in blast)
next
  case False
  show ?thesis
    unfolding add_order_events_def if_not_P [OF False]
    by (rule limit_events_rule) (use False assms(2) in blast)
qed

subsection \<open>Orders with nothing to fill\<close>

text \<open>
  Claim C10. A limit or stop order (any order that is not a market order) submitted with
  a remaining quantity \<open>\<le> 0\<close> makes \<^verbatim>\<open>add_order\<close> return the empty report list and
  leave the book, and the order, as they were: no error is raised, nothing is matched
  and nothing rests.
\<close>

theorem nonpositive_limit_order_dropped:
  assumes "otype ord \<noteq> ''market''" and "quantity ord \<le> 0"
  shows "add_order clk lob ord = (Inr [], ord, lob)"
  using assms by (simp add: add_order_def match_limit_def match_limit_loop_stop)

theorem nonpositive_limit_order_dropped_witness:
  "otype example_empty_limit \<noteq> ''market'' \<and> quantity example_empty_limit \<le> 0 \<and>
   add_order example_clock example_book example_empty_limit =
     (Inr [], example_empty_limit, example_book)"
proof -
  have a: "otype example_empty_limit \<noteq> ''market''" and b: "quantity example_empty_limit \<le> 0"
    by (simp_all add: example_empty_limit_def)
  from nonpositive_limit_order_dropped [OF a b] a b show ?thesis by blast
qed


subsection \<open>The two sides of the book\<close>

lemma side_access [simp]:
  "own_side (set_opposite lob ord xs) ord = own_side lob ord"
  "opposite (set_opposite lob ord xs) ord = xs"
  "own_side (set_own lob ord xs) ord = xs"
  "opposite (set_own lob ord xs) ord = opposite lob ord"
  "book_symbol (set_opposite lob ord xs) = book_symbol lob"
  "book_symbol (set_own lob ord xs) = book_symbol lob"
  by (simp_all add: own_side_def opposite_def set_opposite_def set_own_def)

lemma side_same:
  "side ord' = side ord \<Longrightarrow> own_side lob ord' = own_side lob ord"
  "side ord' = side ord \<Longrightarrow> opposite lob ord' = opposite lob ord"
  "side ord' = side ord \<Longrightarrow> set_own lob ord' xs = set_own lob ord xs"
  "side ord' = side ord \<Longrightarrow> set_opposite lob ord' xs = set_opposite lob ord xs"
  by (simp_all add: own_side_def opposite_def set_opposite_def set_own_def)

lemma both_sides:
  "P (bids lob) \<and> P (asks lob) \<longleftrightarrow> P (own_side lob ord) \<and> P (opposite lob ord)"
  by (auto simp: own_side_def opposite_def)

lemma execute_market_sides:
  "execute_market clk lob ord =
     (case execute_market_loop clk 0 ord (opposite lob ord) [] of
        (reports, ord', opp') \<Rightarrow> (reports, ord', set_opposite lob ord opp'))"
  by (simp add: execute_market_def opposite_def set_opposite_def)

lemma match_limit_sides:
  "match_limit clk lob ord =
     (case match_limit_loop clk 0 ord (opposite lob ord) [] of
        (res, ord', opp') \<Rightarrow> (res, ord', set_opposite lob ord opp'))"
  by (simp add: match_limit_def opposite_def set_opposite_def)

lemma insert_resting_sides:
  "insert_resting lob ord =
     (case insertion_index ord (own_side lob ord) 0 of
        Inl e \<Rightarrow> Inl e
      | Inr idx \<Rightarrow> Inr (set_own lob ord (list_insert idx ord (own_side lob ord))))"
  by (simp add: insert_resting_def own_side_def set_own_def split: sum.splits)

lemma add_order_market:
  "otype ord = ''market'' \<Longrightarrow>
   add_order clk lob ord =
     (case execute_market_loop clk 0 ord (opposite lob ord) [] of
        (reports, ord', opp') \<Rightarrow> (Inr reports, ord', set_opposite lob ord opp'))"
  by (simp add: add_order_def execute_market_sides split: prod.splits)

lemma add_order_limit_path:
  "otype ord \<noteq> ''market'' \<Longrightarrow> add_order clk lob ord = limit_path clk lob ord"
  by (simp add: add_order_def limit_path_def split: prod.splits sum.splits)

subsection \<open>What a fill leaves of the taker and of the opposite list\<close>

lemma taker_post_fields [simp]:
  "oid (taker_post (market_fill t ord opp)) = oid ord"
  "symbol (taker_post (market_fill t ord opp)) = symbol ord"
  "side (taker_post (market_fill t ord opp)) = side ord"
  "otype (taker_post (market_fill t ord opp)) = otype ord"
  "price (taker_post (market_fill t ord opp)) = price ord"
  by (simp_all add: market_fill_post)

lemma all_positive_fill:
  "all_positive opp \<Longrightarrow> all_positive (opp_post (market_fill t ord opp))"
  by (cases opp) (auto simp: market_fill_post all_positive_def)

lemma fill_progress:
  assumes "0 < quantity ord" and "opp \<noteq> []"
  shows "quantity (taker_post (market_fill t ord opp)) = 0 \<or>
         opp_post (market_fill t ord opp) = tl opp"
  using assms by (auto simp: market_fill_post min_def)

lemma fill_keeps_or_pops:
  assumes "opp \<noteq> []"
  shows "opp_post (market_fill t ord opp) = tl opp \<or>
         (\<exists>q. opp_post (market_fill t ord opp) = (hd opp)\<lparr>quantity := q\<rparr> # tl opp)"
  by (auto simp: market_fill_post)

lemma fill_suffix:
  assumes "opp \<noteq> []" and "\<And>x q. f (x\<lparr>quantity := q\<rparr>) = f x"
  shows "map f (opp_post (market_fill t ord opp)) = map f opp \<or>
         map f (opp_post (market_fill t ord opp)) = drop 1 (map f opp)"
  using assms by (cases opp) (auto simp: market_fill_post)

lemma execute_market_loop_suffix:
  assumes "\<And>x q. f (x\<lparr>quantity := q\<rparr>) = f x"
  shows "\<exists>k. map f (snd (snd (execute_market_loop clk n ord opp reports))) = drop k (map f opp)"
proof -
  have "case execute_market_loop clk n ord opp reports of
          (rs, ord', opp') \<Rightarrow> (\<exists>k. map f opp' = drop k (map f opp)) \<and>
                              (quantity ord' \<le> 0 \<or> opp' = [])"
  proof (rule execute_market_loop_rule [where I = "\<lambda>_ xs. \<exists>k. map f xs = drop k (map f opp)"])
    show "\<exists>k. map f opp = drop k (map f opp)"
      by (rule exI [of _ 0]) simp
  next
    fix t x xs
    assume "\<exists>k. map f xs = drop k (map f opp)" and "xs \<noteq> ([]::Order list)"
    then obtain k where k: "map f xs = drop k (map f opp)" by blast
    from fill_suffix [OF \<open>xs \<noteq> []\<close> assms, of t x]
    show "\<exists>k. map f (opp_post (market_fill t x xs)) = drop k (map f opp)"
    proof
      assume "map f (opp_post (market_fill t x xs)) = map f xs"
      with k show ?thesis by auto
    next
      assume "map f (opp_post (market_fill t x xs)) = drop 1 (map f xs)"
      with k have "map f (opp_post (market_fill t x xs)) = drop (Suc k) (map f opp)"
        by simp
      then show ?thesis by blast
    qed
  qed
  then show ?thesis by (simp split: prod.splits)
qed

lemma market_events_length:
  "length (market_events clk n ord opp) \<le> length opp"
proof (induction clk n ord opp rule: market_events.induct)
  case (1 clk n ord opp)
  show ?case
  proof (cases "0 < quantity ord \<and> opp \<noteq> []")
    case True
    then have go: "0 < quantity ord" "opp \<noteq> []" by simp_all
    from fill_progress [OF go, of "clk n"] show ?thesis
    proof
      assume "quantity (taker_post (market_fill (clk n) ord opp)) = 0"
      then have "market_events clk (Suc n) (taker_post (market_fill (clk n) ord opp))
                   (opp_post (market_fill (clk n) ord opp)) = []"
        by (simp add: market_events_stop)
      with go show ?thesis
        by (cases opp) (simp_all add: market_events_fill)
    next
      assume "opp_post (market_fill (clk n) ord opp) = tl opp"
      with "1.IH" [OF True refl] go show ?thesis
        by (cases opp) (simp_all add: market_events_fill)
    qed
  next
    case False
    then show ?thesis by (simp add: market_events_stop)
  qed
qed

lemma limit_events_length:
  "length (limit_events clk n ord opp) \<le> length opp"
proof (induction clk n ord opp rule: limit_events.induct)
  case (1 clk n ord opp)
  show ?case
  proof (cases "0 < quantity ord \<and> opp \<noteq> []")
    case True
    then have go: "0 < quantity ord" "opp \<noteq> []" by simp_all
    show ?thesis
    proof (cases ord "hd opp" rule: limit_break_cases)
      case (raise e)
      then show ?thesis by (simp add: limit_events_raise)
    next
      case break
      then show ?thesis by (simp add: limit_events_break)
    next
      case fill
      from fill_progress [OF go, of "clk n"] show ?thesis
      proof
        assume "quantity (taker_post (market_fill (clk n) ord opp)) = 0"
        then have "limit_events clk (Suc n) (taker_post (limit_fill (clk n) ord opp))
                     (opp_post (limit_fill (clk n) ord opp)) = []"
          by (simp add: limit_events_stop limit_fill_post)
        with go fill show ?thesis
          by (cases opp) (simp_all add: limit_events_fill)
      next
        assume "opp_post (market_fill (clk n) ord opp) = tl opp"
        with "1.IH" [OF True fill refl refl] go fill show ?thesis
          by (cases opp) (simp_all add: limit_events_fill limit_fill_post)
      qed
    qed
  next
    case False
    then show ?thesis by (simp add: limit_events_stop)
  qed
qed

lemma add_order_events_length:
  "length (add_order_events clk lob ord) \<le> length (opposite lob ord)"
  by (simp add: add_order_events_def market_events_length limit_events_length)

subsection \<open>Termination\<close>

text \<open>
  Claim C9. \<^verbatim>\<open>add_order\<close> terminates, for every order and every book: the matching
  loops are total functions (their termination is proved with the definitions, by the
  measure twice the length of the opposite list plus one while the incoming order has
  quantity left), and every iteration that fills either leaves the incoming order with
  remaining quantity 0 or removes the head of the opposite list, which gets strictly
  shorter. So a call makes at most as many fills as the opposite list has orders, and
  the market loop ends with the incoming quantity exhausted or the opposite side empty.
\<close>
theorem matching_loops_make_progress:
  "(\<forall>ev\<in>set (add_order_events clk lob ord).
      0 < quantity (taker_pre ev) \<and> opp_pre ev \<noteq> [] \<and>
      (quantity (taker_post ev) = 0 \<or>
       (opp_post ev = tl (opp_pre ev) \<and> length (opp_post ev) < length (opp_pre ev)))) \<and>
   length (add_order_events clk lob ord) \<le> length (opposite lob ord) \<and>
   (otype ord = ''market'' \<longrightarrow>
      (case add_order clk lob ord of
         (res, ord', lob') \<Rightarrow> quantity ord' \<le> 0 \<or> opposite lob' ord = []))"
proof (intro conjI impI)
  show "\<forall>ev\<in>set (add_order_events clk lob ord).
      0 < quantity (taker_pre ev) \<and> opp_pre ev \<noteq> [] \<and>
      (quantity (taker_post ev) = 0 \<or>
       (opp_post ev = tl (opp_pre ev) \<and> length (opp_post ev) < length (opp_pre ev)))"
  proof (rule add_order_events_cases)
    fix t and x :: Order and xs :: "Order list"
    assume go: "0 < quantity x" "xs \<noteq> []"
    from fill_progress [OF go, of t] go
    show "0 < quantity (taker_pre (market_fill t x xs)) \<and> opp_pre (market_fill t x xs) \<noteq> [] \<and>
      (quantity (taker_post (market_fill t x xs)) = 0 \<or>
       (opp_post (market_fill t x xs) = tl (opp_pre (market_fill t x xs)) \<and>
        length (opp_post (market_fill t x xs)) < length (opp_pre (market_fill t x xs))))"
      by auto
  next
    fix t and x :: Order and xs :: "Order list"
    assume go: "0 < quantity x" "xs \<noteq> []"
    from fill_progress [OF go, of t] go
    show "0 < quantity (taker_pre (limit_fill t x xs)) \<and> opp_pre (limit_fill t x xs) \<noteq> [] \<and>
      (quantity (taker_post (limit_fill t x xs)) = 0 \<or>
       (opp_post (limit_fill t x xs) = tl (opp_pre (limit_fill t x xs)) \<and>
        length (opp_post (limit_fill t x xs)) < length (opp_pre (limit_fill t x xs))))"
      by (auto simp: limit_fill_post)
  qed
next
  show "length (add_order_events clk lob ord) \<le> length (opposite lob ord)"
    by (rule add_order_events_length)
next
  assume m: "otype ord = ''market''"
  have "case execute_market_loop clk 0 ord (opposite lob ord) [] of
          (rs, ord', opp') \<Rightarrow> True \<and> (quantity ord' \<le> 0 \<or> opp' = [])"
    by (rule execute_market_loop_rule [where I = "\<lambda>_ _. True"]) simp_all
  then show "case add_order clk lob ord of
         (res, ord', lob') \<Rightarrow> quantity ord' \<le> 0 \<or> opposite lob' ord = []"
    by (simp add: add_order_market [OF m] split: prod.splits)
qed

theorem matching_loops_make_progress_witness:
  "length (add_order_events example_clock example_book example_market_buy) = 3 \<and>
   length (opposite example_book example_market_buy) = 3 \<and>
   list_all (\<lambda>ev.
      0 < quantity (taker_pre ev) \<and> opp_pre ev \<noteq> [] \<and>
      (quantity (taker_post ev) = 0 \<or>
       (opp_post ev = tl (opp_pre ev) \<and> length (opp_post ev) < length (opp_pre ev))))
     (add_order_events example_clock example_book example_market_buy) \<and>
   otype example_market_buy = ''market'' \<and>
   (case add_order example_clock example_book example_market_buy of
      (res, ord', lob') \<Rightarrow> quantity ord' \<le> 0 \<or> opposite lob' example_market_buy = [])"
proof -
  have "length (add_order_events example_clock example_book example_market_buy) = 3"
    by code_simp
  moreover have "length (opposite example_book example_market_buy) = 3"
    by code_simp
  moreover have "otype example_market_buy = ''market''"
    by (simp add: example_market_buy_def)
  ultimately show ?thesis
    using matching_loops_make_progress [of example_clock example_book example_market_buy]
    by (simp add: list_all_iff)
qed

subsection \<open>Resting quantities stay positive\<close>

lemma quantity_update_same: "\<exists>q. (ord::Order) = ord\<lparr>quantity := q\<rparr>"
  by (rule exI [of _ "quantity ord"]) simp

lemma match_limit_loop_taker:
  "case match_limit_loop clk n ord opp reports of
     (res, ord', opp') \<Rightarrow> ord' = ord\<lparr>quantity := quantity ord'\<rparr>"
proof -
  have "case match_limit_loop clk n ord opp reports of
           (Inl e, ord', opp') \<Rightarrow>
              (\<exists>q. ord' = ord\<lparr>quantity := q\<rparr>) \<and> 0 < quantity ord' \<and> opp' \<noteq> [] \<and>
              limit_break ord' (hd opp') = Inl e
         | (Inr rs, ord', opp') \<Rightarrow>
              (\<exists>q. ord' = ord\<lparr>quantity := q\<rparr>) \<and>
              (quantity ord' \<le> 0 \<or> opp' = [] \<or> limit_break ord' (hd opp') = Inr True)"
    by (rule match_limit_loop_rule [where I = "\<lambda>x xs. \<exists>q. x = ord\<lparr>quantity := q\<rparr>"])
       (auto simp: limit_fill_post market_fill_post quantity_update_same)
  then show ?thesis
    by (auto split: prod.splits sum.splits)
qed

lemma execute_market_loop_taker:
  "case execute_market_loop clk n ord opp reports of
     (res, ord', opp') \<Rightarrow> ord' = ord\<lparr>quantity := quantity ord'\<rparr>"
proof -
  have "case execute_market_loop clk n ord opp reports of
          (rs, ord', opp') \<Rightarrow> (\<exists>q. ord' = ord\<lparr>quantity := q\<rparr>) \<and>
                              (quantity ord' \<le> 0 \<or> opp' = [])"
    by (rule execute_market_loop_rule [where I = "\<lambda>x xs. \<exists>q. x = ord\<lparr>quantity := q\<rparr>"])
       (auto simp: market_fill_post quantity_update_same)
  then show ?thesis
    by (auto split: prod.splits)
qed

lemma limit_path_unfold:
  assumes "match_limit_loop clk 0 ord (opposite lob ord) [] = (res, ord1, opp1)"
  shows "limit_path clk lob ord =
     (case res of
        Inl e \<Rightarrow> (Inl e, ord1, set_opposite lob ord opp1)
      | Inr rs \<Rightarrow>
          if 0 < quantity ord1 then
            (case insertion_index ord1 (own_side lob ord) 0 of
               Inl e \<Rightarrow> (Inl e, ord1, set_opposite lob ord opp1)
             | Inr idx \<Rightarrow>
                 (Inr rs, ord1,
                  set_own (set_opposite lob ord opp1) ord
                    (list_insert idx ord1 (own_side lob ord))))
          else (Inr rs, ord1, set_opposite lob ord opp1))"
proof -
  from match_limit_loop_taker [where clk = clk and n = 0 and ord = ord
      and opp = "opposite lob ord" and reports = "[]"] assms
  have "ord1 = ord\<lparr>quantity := quantity ord1\<rparr>" by simp
  then have "side ord1 = side (ord\<lparr>quantity := quantity ord1\<rparr>)" by simp
  then have s: "side ord1 = side ord" by simp
  show ?thesis
    using assms
    by (simp add: limit_path_def match_limit_sides insert_resting_sides side_same [OF s]
             split: sum.splits)
qed

lemma all_positive_list_insert:
  "all_positive xs \<Longrightarrow> 0 < quantity x \<Longrightarrow> all_positive (list_insert idx x xs)"
  unfolding all_positive_def list_insert_def list_all_iff
  by (auto dest: in_set_takeD in_set_dropD)

lemma add_order_positive:
  assumes "all_positive (own_side lob ord)" and "all_positive (opposite lob ord)"
  shows "case add_order clk lob ord of
           (res, ord', lob') \<Rightarrow>
              all_positive (own_side lob' ord) \<and> all_positive (opposite lob' ord)"
proof (cases "otype ord = ''market''")
  case True
  have "case execute_market_loop clk 0 ord (opposite lob ord) [] of
          (rs, ord', opp') \<Rightarrow> all_positive opp' \<and> (quantity ord' \<le> 0 \<or> opp' = [])"
    by (rule execute_market_loop_rule [where I = "\<lambda>_ xs. all_positive xs"])
       (simp_all add: assms all_positive_fill)
  with assms(1) show ?thesis
    by (auto simp: add_order_market [OF True] split: prod.splits)
next
  case False
  obtain res ord1 opp1 where
    loop: "match_limit_loop clk 0 ord (opposite lob ord) [] = (res, ord1, opp1)"
    by (cases "match_limit_loop clk 0 ord (opposite lob ord) []") auto
  have "case match_limit_loop clk 0 ord (opposite lob ord) [] of
           (Inl e, ord', opp') \<Rightarrow>
              all_positive opp' \<and> 0 < quantity ord' \<and> opp' \<noteq> [] \<and>
              limit_break ord' (hd opp') = Inl e
         | (Inr rs, ord', opp') \<Rightarrow>
              all_positive opp' \<and>
              (quantity ord' \<le> 0 \<or> opp' = [] \<or> limit_break ord' (hd opp') = Inr True)"
    by (rule match_limit_loop_rule [where I = "\<lambda>_ xs. all_positive xs"])
       (simp_all add: assms all_positive_fill limit_fill_post)
  with loop have pos: "all_positive opp1"
    by (auto split: sum.splits)
  show ?thesis
    using assms(1) pos
    by (auto simp: add_order_limit_path [OF False] limit_path_unfold [OF loop]
          all_positive_list_insert split: sum.splits)
qed

subsection \<open>Fill events and the reports of a call\<close>

text \<open>
  The events listed for a call are the iterations of its matching loop: the first starts
  from the incoming order and the opposite side of the book, each later one from what the
  one before left, and the reports returned are the events' report pairs in that order.
\<close>

lemma add_order_reports:
  assumes "fst (add_order clk lob ord) = Inr rs"
  shows "rs = event_reports (add_order_events clk lob ord)"
proof (cases "otype ord = ''market''")
  case True
  obtain rs' ord1 opp1 where
    loop: "execute_market_loop clk 0 ord (opposite lob ord) [] = (rs', ord1, opp1)"
    by (cases "execute_market_loop clk 0 ord (opposite lob ord) []") auto
  from execute_market_loop_reports [of clk 0 ord "opposite lob ord" "[]"] loop
  have "rs' = event_reports (market_events clk 0 ord (opposite lob ord))" by simp
  with assms loop True show ?thesis
    by (simp add: add_order_market add_order_events_def)
next
  case False
  obtain res ord1 opp1 where
    loop: "match_limit_loop clk 0 ord (opposite lob ord) [] = (res, ord1, opp1)"
    by (cases "match_limit_loop clk 0 ord (opposite lob ord) []") auto
  from assms have "res = Inr rs"
    by (auto simp: add_order_limit_path [OF False] limit_path_unfold [OF loop]
          split: sum.splits if_splits)
  with loop have "fst (match_limit_loop clk 0 ord (opposite lob ord) []) = Inr rs" by simp
  from match_limit_loop_reports [OF this] False show ?thesis
    by (simp add: add_order_events_def)
qed

lemma market_events_chain:
  "market_events clk n ord opp = evs \<Longrightarrow> i < length evs \<Longrightarrow>
     (if i = 0 then taker_pre (evs ! i) = ord \<and> opp_pre (evs ! i) = opp
      else taker_pre (evs ! i) = taker_post (evs ! (i - 1)) \<and>
           opp_pre (evs ! i) = opp_post (evs ! (i - 1)))"
proof (induction clk n ord opp arbitrary: evs i rule: market_events.induct)
  case (1 clk n ord opp)
  show ?case
  proof (cases "0 < quantity ord \<and> opp \<noteq> []")
    case True
    then have go: "0 < quantity ord" "opp \<noteq> []" by simp_all
    let ?ev = "market_fill (clk n) ord opp"
    let ?rest = "market_events clk (Suc n) (taker_post ?ev) (opp_post ?ev)"
    have evs: "evs = ?ev # ?rest"
      using "1.prems"(1) by (simp add: market_events_fill [OF go])
    show ?thesis
    proof (cases i)
      case 0
      then show ?thesis by (simp add: evs)
    next
      case (Suc k)
      with "1.prems"(2) evs have k: "k < length ?rest" by simp
      from "1.IH" [OF True refl refl k] Suc show ?thesis
        by (cases k) (simp_all add: evs)
    qed
  next
    case False
    with "1.prems" show ?thesis by (simp add: market_events_stop)
  qed
qed

lemma limit_events_chain:
  "limit_events clk n ord opp = evs \<Longrightarrow> i < length evs \<Longrightarrow>
     (if i = 0 then taker_pre (evs ! i) = ord \<and> opp_pre (evs ! i) = opp
      else taker_pre (evs ! i) = taker_post (evs ! (i - 1)) \<and>
           opp_pre (evs ! i) = opp_post (evs ! (i - 1)))"
proof (induction clk n ord opp arbitrary: evs i rule: limit_events.induct)
  case (1 clk n ord opp)
  show ?case
  proof (cases "0 < quantity ord \<and> opp \<noteq> []")
    case True
    then have go: "0 < quantity ord" "opp \<noteq> []" by simp_all
    show ?thesis
    proof (cases ord "hd opp" rule: limit_break_cases)
      case (raise e)
      with "1.prems" show ?thesis by (simp add: limit_events_raise)
    next
      case break
      with "1.prems" show ?thesis by (simp add: limit_events_break)
    next
      case fill
      let ?ev = "limit_fill (clk n) ord opp"
      let ?rest = "limit_events clk (Suc n) (taker_post ?ev) (opp_post ?ev)"
      have evs: "evs = ?ev # ?rest"
        using "1.prems"(1) by (simp add: limit_events_fill [OF go fill])
      show ?thesis
      proof (cases i)
        case 0
        then show ?thesis by (simp add: evs)
      next
        case (Suc k)
        with "1.prems"(2) evs have k: "k < length ?rest" by simp
        from "1.IH" [OF True fill refl refl refl k] Suc show ?thesis
          by (cases k) (simp_all add: evs)
      qed
    qed
  next
    case False
    with "1.prems" show ?thesis by (simp add: limit_events_stop)
  qed
qed

lemma add_order_events_chain:
  assumes "i < length (add_order_events clk lob ord)"
  shows "if i = 0
         then taker_pre (add_order_events clk lob ord ! i) = ord \<and>
              opp_pre (add_order_events clk lob ord ! i) = opposite lob ord
         else taker_pre (add_order_events clk lob ord ! i) =
                taker_post (add_order_events clk lob ord ! (i - 1)) \<and>
              opp_pre (add_order_events clk lob ord ! i) =
                opp_post (add_order_events clk lob ord ! (i - 1))"
proof (cases "otype ord = ''market''")
  case True
  with assms have "i < length (market_events clk 0 ord (opposite lob ord))"
    by (simp add: add_order_events_def)
  from market_events_chain [OF refl this] show ?thesis
    unfolding add_order_events_def if_P [OF True] .
next
  case False
  with assms have "i < length (limit_events clk 0 ord (opposite lob ord))"
    by (simp add: add_order_events_def)
  from limit_events_chain [OF refl this] show ?thesis
    unfolding add_order_events_def if_not_P [OF False] .
qed

text \<open>
  Claim C4. In every fill event of a call of \<^verbatim>\<open>add_order\<close>, on the market path and on
  the limit path alike, the maker is the head of the opposite list, the filled quantity
  is the minimum of the taker's and the maker's remaining quantities before the fill,
  both remaining quantities go down by exactly the filled quantity, both reports carry
  that quantity, and the price in both reports is the maker's price. The reports a call
  returns are exactly the report pairs of its fill events, taker first.
\<close>

theorem fill_quantities_and_price:
  "(\<forall>rs. fst (add_order clk lob ord) = Inr rs \<longrightarrow>
      rs = event_reports (add_order_events clk lob ord)) \<and>
   (\<forall>ev\<in>set (add_order_events clk lob ord).
     maker_pre ev = hd (opp_pre ev) \<and>
     fill_qty ev = min (quantity (taker_pre ev)) (quantity (maker_pre ev)) \<and>
     quantity (taker_post ev) = quantity (taker_pre ev) - fill_qty ev \<and>
     quantity (maker_post ev) = quantity (maker_pre ev) - fill_qty ev \<and>
     r_filled_qty (taker_report ev) = fill_qty ev \<and>
     r_filled_qty (maker_report ev) = fill_qty ev \<and>
     r_price (taker_report ev) = price (maker_pre ev) \<and>
     r_price (maker_report ev) = price (maker_pre ev))"
proof
  show "\<forall>rs. fst (add_order clk lob ord) = Inr rs \<longrightarrow>
      rs = event_reports (add_order_events clk lob ord)"
    using add_order_reports by blast
next
  show "\<forall>ev\<in>set (add_order_events clk lob ord).
     maker_pre ev = hd (opp_pre ev) \<and>
     fill_qty ev = min (quantity (taker_pre ev)) (quantity (maker_pre ev)) \<and>
     quantity (taker_post ev) = quantity (taker_pre ev) - fill_qty ev \<and>
     quantity (maker_post ev) = quantity (maker_pre ev) - fill_qty ev \<and>
     r_filled_qty (taker_report ev) = fill_qty ev \<and>
     r_filled_qty (maker_report ev) = fill_qty ev \<and>
     r_price (taker_report ev) = price (maker_pre ev) \<and>
     r_price (maker_report ev) = price (maker_pre ev)"
    by (rule add_order_events_cases) (simp_all add: market_fill_def limit_fill_def Let_def)
qed

theorem fill_quantities_and_price_witness:
  "map fill_qty (add_order_events example_clock example_book example_limit_buy) = [30, 10] \<and>
   fst (add_order example_clock example_book example_limit_buy) =
     Inr (event_reports (add_order_events example_clock example_book example_limit_buy)) \<and>
   list_all (\<lambda>ev.
     maker_pre ev = hd (opp_pre ev) \<and>
     fill_qty ev = min (quantity (taker_pre ev)) (quantity (maker_pre ev)) \<and>
     quantity (taker_post ev) = quantity (taker_pre ev) - fill_qty ev \<and>
     quantity (maker_post ev) = quantity (maker_pre ev) - fill_qty ev \<and>
     r_filled_qty (taker_report ev) = fill_qty ev \<and>
     r_filled_qty (maker_report ev) = fill_qty ev \<and>
     r_price (taker_report ev) = price (maker_pre ev) \<and>
     r_price (maker_report ev) = price (maker_pre ev))
     (add_order_events example_clock example_book example_limit_buy)"
proof -
  have "map fill_qty (add_order_events example_clock example_book example_limit_buy) = [30, 10]"
    by code_simp
  moreover
  have "fst (add_order example_clock example_book example_limit_buy) =
     Inr (event_reports (add_order_events example_clock example_book example_limit_buy))"
    by code_simp
  ultimately show ?thesis
    using fill_quantities_and_price [of example_clock example_book example_limit_buy]
    by (simp add: list_all_iff)
qed

text \<open>
  Claim C2. For a market order \<^verbatim>\<open>add_order\<close> returns, without error, exactly the report
  pairs of its fill events, and in every fill event the taker's report has status
  \<^verbatim>\<open>filled\<close> exactly when, after the fill, the incoming order has nothing left, or the
  maker has nothing left and the opposite list held exactly one order before the maker
  was removed; in every other case the status is \<^verbatim>\<open>partial_fill\<close>.
\<close>

theorem market_taker_status:
  assumes "otype ord = ''market''"
  shows "fst (add_order clk lob ord) = Inr (event_reports (add_order_events clk lob ord)) \<and>
   (\<forall>ev\<in>set (add_order_events clk lob ord).
     r_status (taker_report ev) =
       (if quantity (taker_post ev) = 0 \<or>
           (quantity (maker_post ev) = 0 \<and> length (opp_pre ev) = 1)
        then ''filled'' else ''partial_fill''))"
proof
  obtain rs ord1 opp1 where
    "execute_market_loop clk 0 ord (opposite lob ord) [] = (rs, ord1, opp1)"
    by (cases "execute_market_loop clk 0 ord (opposite lob ord) []") auto
  then have r: "fst (add_order clk lob ord) = Inr rs"
    by (simp add: add_order_market [OF assms])
  from add_order_reports [OF r] r
  show "fst (add_order clk lob ord) = Inr (event_reports (add_order_events clk lob ord))"
    by simp
next
  show "\<forall>ev\<in>set (add_order_events clk lob ord).
     r_status (taker_report ev) =
       (if quantity (taker_post ev) = 0 \<or>
           (quantity (maker_post ev) = 0 \<and> length (opp_pre ev) = 1)
        then ''filled'' else ''partial_fill'')"
    by (rule add_order_events_cases) (use assms in \<open>simp_all add: market_fill_def Let_def\<close>)
qed

theorem market_taker_status_witness:
  "otype example_market_buy = ''market'' \<and>
   map (\<lambda>r. (r_order_id r, r_filled_qty r, r_status r))
     (projr (fst (add_order example_clock example_book example_market_buy))) =
     [(5, 30, ''partial_fill''), (2, 30, ''filled''),
      (5, 20, ''partial_fill''), (3, 20, ''filled''),
      (5, 50, ''filled''), (4, 50, ''filled'')] \<and>
   map (\<lambda>ev. (r_status (taker_report ev), quantity (taker_post ev), quantity (maker_post ev),
               length (opp_pre ev)))
     (add_order_events example_clock example_book example_market_buy) =
     [(''partial_fill'', 90, 0, 3), (''partial_fill'', 70, 0, 2), (''filled'', 20, 0, 1)] \<and>
   fst (add_order example_clock example_book example_market_buy) =
     Inr (event_reports (add_order_events example_clock example_book example_market_buy)) \<and>
   list_all (\<lambda>ev.
     r_status (taker_report ev) =
       (if quantity (taker_post ev) = 0 \<or>
           (quantity (maker_post ev) = 0 \<and> length (opp_pre ev) = 1)
        then ''filled'' else ''partial_fill''))
     (add_order_events example_clock example_book example_market_buy)"
proof -
  have m: "otype example_market_buy = ''market''"
    by (simp add: example_market_buy_def)
  have r: "map (\<lambda>r. (r_order_id r, r_filled_qty r, r_status r))
     (projr (fst (add_order example_clock example_book example_market_buy))) =
     [(5, 30, ''partial_fill''), (2, 30, ''filled''),
      (5, 20, ''partial_fill''), (3, 20, ''filled''),
      (5, 50, ''filled''), (4, 50, ''filled'')]"
    by code_simp
  have e: "map (\<lambda>ev. (r_status (taker_report ev), quantity (taker_post ev), quantity (maker_post ev),
               length (opp_pre ev)))
     (add_order_events example_clock example_book example_market_buy) =
     [(''partial_fill'', 90, 0, 3), (''partial_fill'', 70, 0, 2), (''filled'', 20, 0, 1)]"
    by code_simp
  from market_taker_status [OF m, of example_clock example_book]
  have f: "fst (add_order example_clock example_book example_market_buy) =
     Inr (event_reports (add_order_events example_clock example_book example_market_buy))"
    and p: "list_all (\<lambda>ev.
     r_status (taker_report ev) =
       (if quantity (taker_post ev) = 0 \<or>
           (quantity (maker_post ev) = 0 \<and> length (opp_pre ev) = 1)
        then ''filled'' else ''partial_fill''))
     (add_order_events example_clock example_book example_market_buy)"
    unfolding list_all_iff by blast+
  from m r e f p show ?thesis
    by iprover
qed

text \<open>
  Claim C5. The reports \<^verbatim>\<open>add_order\<close> returns are exactly the report pairs of its fill
  events. In every fill event of an order that is not a market order (limit, stop or
  any other type), the taker's report has status \<^verbatim>\<open>filled\<close> exactly when the incoming
  order has nothing left after the fill, and \<^verbatim>\<open>partial_fill\<close> otherwise: the path has no
  last-resting-order case. On both paths the maker's report has status \<^verbatim>\<open>filled\<close>
  exactly when the maker has nothing left after the fill, and \<^verbatim>\<open>partial_fill\<close> otherwise.
\<close>

theorem limit_taker_status_and_maker_status:
  "(\<forall>rs. fst (add_order clk lob ord) = Inr rs \<longrightarrow>
      rs = event_reports (add_order_events clk lob ord)) \<and>
   (otype ord \<noteq> ''market'' \<longrightarrow>
      (\<forall>ev\<in>set (add_order_events clk lob ord).
         r_status (taker_report ev) =
           (if quantity (taker_post ev) = 0 then ''filled'' else ''partial_fill''))) \<and>
   (\<forall>ev\<in>set (add_order_events clk lob ord).
      r_status (maker_report ev) =
        (if quantity (maker_post ev) = 0 then ''filled'' else ''partial_fill''))"
proof (intro conjI impI)
  show "\<forall>rs. fst (add_order clk lob ord) = Inr rs \<longrightarrow>
      rs = event_reports (add_order_events clk lob ord)"
    using add_order_reports by blast
next
  assume "otype ord \<noteq> ''market''"
  then show "\<forall>ev\<in>set (add_order_events clk lob ord).
         r_status (taker_report ev) =
           (if quantity (taker_post ev) = 0 then ''filled'' else ''partial_fill'')"
    by (intro add_order_events_cases) (simp_all add: limit_fill_def Let_def)
next
  show "\<forall>ev\<in>set (add_order_events clk lob ord).
      r_status (maker_report ev) =
        (if quantity (maker_post ev) = 0 then ''filled'' else ''partial_fill'')"
    by (rule add_order_events_cases) (simp_all add: market_fill_def limit_fill_def Let_def)
qed

theorem limit_taker_status_and_maker_status_witness:
  "otype example_limit_buy \<noteq> ''market'' \<and>
   map (\<lambda>r. (r_order_id r, r_filled_qty r, r_status r))
     (projr (fst (add_order example_clock example_book example_limit_buy))) =
     [(6, 30, ''partial_fill''), (2, 30, ''filled''),
      (6, 10, ''filled''), (3, 10, ''partial_fill'')] \<and>
   map (\<lambda>ev. (r_status (taker_report ev), quantity (taker_post ev),
               r_status (maker_report ev), quantity (maker_post ev)))
     (add_order_events example_clock example_book example_limit_buy) =
     [(''partial_fill'', 10, ''filled'', 0), (''filled'', 0, ''partial_fill'', 10)] \<and>
   fst (add_order example_clock example_book example_limit_buy) =
     Inr (event_reports (add_order_events example_clock example_book example_limit_buy)) \<and>
   list_all (\<lambda>ev.
      r_status (taker_report ev) =
        (if quantity (taker_post ev) = 0 then ''filled'' else ''partial_fill''))
     (add_order_events example_clock example_book example_limit_buy) \<and>
   list_all (\<lambda>ev.
      r_status (maker_report ev) =
        (if quantity (maker_post ev) = 0 then ''filled'' else ''partial_fill''))
     (add_order_events example_clock example_book example_limit_buy)"
proof -
  have l: "otype example_limit_buy \<noteq> ''market''"
    by (simp add: example_limit_buy_def)
  have r: "map (\<lambda>r. (r_order_id r, r_filled_qty r, r_status r))
     (projr (fst (add_order example_clock example_book example_limit_buy))) =
     [(6, 30, ''partial_fill''), (2, 30, ''filled''),
      (6, 10, ''filled''), (3, 10, ''partial_fill'')]"
    by code_simp
  have e: "map (\<lambda>ev. (r_status (taker_report ev), quantity (taker_post ev),
               r_status (maker_report ev), quantity (maker_post ev)))
     (add_order_events example_clock example_book example_limit_buy) =
     [(''partial_fill'', 10, ''filled'', 0), (''filled'', 0, ''partial_fill'', 10)]"
    by code_simp
  have f: "fst (add_order example_clock example_book example_limit_buy) =
     Inr (event_reports (add_order_events example_clock example_book example_limit_buy))"
    by code_simp
  from l limit_taker_status_and_maker_status [of example_clock example_book example_limit_buy]
  have p: "list_all (\<lambda>ev.
      r_status (taker_report ev) =
        (if quantity (taker_post ev) = 0 then ''filled'' else ''partial_fill''))
     (add_order_events example_clock example_book example_limit_buy)"
    and q: "list_all (\<lambda>ev.
      r_status (maker_report ev) =
        (if quantity (maker_post ev) = 0 then ''filled'' else ''partial_fill''))
     (add_order_events example_clock example_book example_limit_buy)"
    unfolding list_all_iff by blast+
  from l r e f p q show ?thesis
    by iprover
qed

subsection \<open>Market orders never rest\<close>

lemma execute_market_loop_final:
  "snd (execute_market_loop clk n ord opp reports) =
     (if market_events clk n ord opp = [] then (ord, opp)
      else (taker_post (last (market_events clk n ord opp)),
            opp_post (last (market_events clk n ord opp))))"
proof (induction clk n ord opp reports rule: execute_market_loop.induct)
  case (1 clk n ord opp reports)
  show ?case
  proof (cases "0 < quantity ord \<and> opp \<noteq> []")
    case True
    then have go: "0 < quantity ord" "opp \<noteq> []" by simp_all
    show ?thesis
      using "1.IH" [OF True refl]
      by (simp add: execute_market_loop_fill [OF go] market_events_fill [OF go])
  next
    case False
    then show ?thesis
      by (simp add: execute_market_loop_stop market_events_stop)
  qed
qed

lemma execute_market_loop_remainder:
  "quantity (fst (snd (execute_market_loop clk n ord opp reports))) =
     quantity ord -
     sum_list (map (\<lambda>ev. r_filled_qty (taker_report ev)) (market_events clk n ord opp))"
proof (induction clk n ord opp reports rule: execute_market_loop.induct)
  case (1 clk n ord opp reports)
  show ?case
  proof (cases "0 < quantity ord \<and> opp \<noteq> []")
    case True
    then have go: "0 < quantity ord" "opp \<noteq> []" by simp_all
    have "r_filled_qty (taker_report (market_fill (clk n) ord opp)) =
            min (quantity ord) (quantity (hd opp))"
      by (simp add: market_fill_def Let_def)
    then show ?thesis
      using "1.IH" [OF True refl]
      by (simp add: execute_market_loop_fill [OF go] market_events_fill [OF go]
            market_fill_post)
  next
    case False
    then show ?thesis
      by (simp add: execute_market_loop_stop market_events_stop)
  qed
qed

text \<open>
  Claim C7. A market order never rests. \<^verbatim>\<open>add_order\<close> returns without error; the
  order's own side of the book is unchanged and its opposite side is what the last fill
  left (a suffix of the orders that were there), so nothing is done to the book for
  the unfilled remainder; when the order's identifier is not already in the book it is
  not in the book afterwards. What is left of the order is its requested quantity minus
  the sum of \<^verbatim>\<open>filled_qty\<close> over its own reports.
\<close>
theorem market_order_never_rests:
  assumes "otype ord = ''market''"
  shows "case add_order clk lob ord of
           (res, ord', lob') \<Rightarrow>
             res = Inr (event_reports (add_order_events clk lob ord)) \<and>
             book_symbol lob' = book_symbol lob \<and>
             own_side lob' ord = own_side lob ord \<and>
             opposite lob' ord =
               (if add_order_events clk lob ord = [] then opposite lob ord
                else opp_post (last (add_order_events clk lob ord))) \<and>
             (\<exists>k. map oid (opposite lob' ord) = drop k (map oid (opposite lob ord))) \<and>
             (oid ord \<notin> oid ` set (bids lob @ asks lob) \<longrightarrow>
                oid ord \<notin> oid ` set (bids lob' @ asks lob')) \<and>
             quantity ord' =
               quantity ord -
               sum_list (map (\<lambda>ev. r_filled_qty (taker_report ev))
                          (add_order_events clk lob ord))"
proof -
  obtain rs ord1 opp1 where
    loop: "execute_market_loop clk 0 ord (opposite lob ord) [] = (rs, ord1, opp1)"
    by (cases "execute_market_loop clk 0 ord (opposite lob ord) []") auto
  have ev: "add_order_events clk lob ord = market_events clk 0 ord (opposite lob ord)"
    using assms by (simp add: add_order_events_def)
  have res: "add_order clk lob ord = (Inr rs, ord1, set_opposite lob ord opp1)"
    using loop by (simp add: add_order_market [OF assms])
  have r1: "rs = event_reports (add_order_events clk lob ord)"
    using execute_market_loop_reports [of clk 0 ord "opposite lob ord" "[]"] loop ev by simp
  have r2: "opp1 = (if add_order_events clk lob ord = [] then opposite lob ord
                else opp_post (last (add_order_events clk lob ord)))"
    using execute_market_loop_final [of clk 0 ord "opposite lob ord" "[]"] loop ev
    by (simp split: if_splits)
  have "\<exists>k. map oid (snd (snd (execute_market_loop clk 0 ord (opposite lob ord) []))) =
          drop k (map oid (opposite lob ord))"
    by (rule execute_market_loop_suffix) simp
  then obtain k where r3: "map oid opp1 = drop k (map oid (opposite lob ord))"
    using loop by auto
  have r4: "quantity ord1 = quantity ord -
               sum_list (map (\<lambda>ev. r_filled_qty (taker_report ev))
                          (add_order_events clk lob ord))"
    using execute_market_loop_remainder [of clk 0 ord "opposite lob ord" "[]"] loop ev by simp
  have "oid ` set opp1 \<subseteq> oid ` set (opposite lob ord)"
  proof -
    have "oid ` set opp1 = set (map oid opp1)" by simp
    also have "\<dots> \<subseteq> set (map oid (opposite lob ord))"
      unfolding r3 by (rule set_drop_subset)
    finally show ?thesis by simp
  qed
  then have r5: "oid ord \<notin> oid ` set (bids lob @ asks lob) \<longrightarrow>
      oid ord \<notin> oid ` set (bids (set_opposite lob ord opp1) @ asks (set_opposite lob ord opp1))"
    by (auto simp: set_opposite_def opposite_def)
  show ?thesis
    unfolding res using r1 r2 r3 r4 r5 by (simp del: set_append) blast
qed

theorem market_order_never_rests_witness:
  "otype example_market_buy = ''market'' \<and>
   snd (add_order example_clock example_book example_market_buy) =
     (example_market_buy\<lparr>quantity := 20\<rparr>, example_book\<lparr>asks := []\<rparr>) \<and>
   (case add_order example_clock example_book example_market_buy of
      (res, ord', lob') \<Rightarrow>
        res = Inr (event_reports
                (add_order_events example_clock example_book example_market_buy)) \<and>
        book_symbol lob' = book_symbol example_book \<and>
        own_side lob' example_market_buy = own_side example_book example_market_buy \<and>
        opposite lob' example_market_buy =
          (if add_order_events example_clock example_book example_market_buy = []
           then opposite example_book example_market_buy
           else opp_post (last
                  (add_order_events example_clock example_book example_market_buy))) \<and>
        (\<exists>k. map oid (opposite lob' example_market_buy) =
               drop k (map oid (opposite example_book example_market_buy))) \<and>
        (oid example_market_buy \<notin> oid ` set (bids example_book @ asks example_book) \<longrightarrow>
           oid example_market_buy \<notin> oid ` set (bids lob' @ asks lob')) \<and>
        quantity ord' =
          quantity example_market_buy -
          sum_list (map (\<lambda>ev. r_filled_qty (taker_report ev))
                     (add_order_events example_clock example_book example_market_buy)))"
proof -
  have m: "otype example_market_buy = ''market''"
    by (simp add: example_market_buy_def)
  have "snd (add_order example_clock example_book example_market_buy) =
     (example_market_buy\<lparr>quantity := 20\<rparr>, example_book\<lparr>asks := []\<rparr>)"
    by code_simp
  with m market_order_never_rests [OF m, of example_clock example_book]
  show ?thesis by simp
qed

subsection \<open>Orders that are not market orders\<close>

lemma limit_break_retype [simp]:
  "limit_break (ord\<lparr>otype := t\<rparr>) best = limit_break ord best"
  by (simp add: limit_break_def)

lemma limit_fill_retype:
  "taker_post (limit_fill ts (ord\<lparr>otype := t\<rparr>) opp) = (taker_post (limit_fill ts ord opp))\<lparr>otype := t\<rparr>"
  "opp_post (limit_fill ts (ord\<lparr>otype := t\<rparr>) opp) = opp_post (limit_fill ts ord opp)"
  "taker_report (limit_fill ts (ord\<lparr>otype := t\<rparr>) opp) = taker_report (limit_fill ts ord opp)"
  "maker_report (limit_fill ts (ord\<lparr>otype := t\<rparr>) opp) = maker_report (limit_fill ts ord opp)"
  by (simp_all add: limit_fill_def Let_def)

lemma match_limit_loop_retype:
  "match_limit_loop clk n (ord\<lparr>otype := t\<rparr>) opp reports =
     (case match_limit_loop clk n ord opp reports of
        (res, ord', opp') \<Rightarrow> (res, ord'\<lparr>otype := t\<rparr>, opp'))"
proof (induction clk n ord opp reports rule: match_limit_loop.induct)
  case (1 clk n ord opp reports)
  show ?case
  proof (cases "0 < quantity ord \<and> opp \<noteq> []")
    case True
    then have go: "0 < quantity ord" "opp \<noteq> []" by simp_all
    then have go': "0 < quantity (ord\<lparr>otype := t\<rparr>)" by simp
    show ?thesis
    proof (cases ord "hd opp" rule: limit_break_cases)
      case (raise e)
      then show ?thesis
        using go by (simp add: match_limit_loop_raise)
    next
      case break
      then show ?thesis
        using go by (simp add: match_limit_loop_break)
    next
      case fill
      then have fill': "limit_break (ord\<lparr>otype := t\<rparr>) (hd opp) = Inr False" by simp
      show ?thesis
        using "1.IH" [OF True fill refl refl]
        by (simp add: match_limit_loop_fill [OF go fill]
              match_limit_loop_fill [OF go' go(2) fill'] limit_fill_retype)
    qed
  next
    case False
    then show ?thesis
      by (simp add: match_limit_loop_stop)
  qed
qed

lemma insertion_index_retype:
  "insertion_index (ord\<lparr>otype := t\<rparr>) book idx = insertion_index ord book idx"
proof (induction ord book idx rule: insertion_index.induct)
  case (1 ord book idx)
  show ?case
    using "1.IH"
    by (auto simp: insertion_index.simps [of "ord\<lparr>otype := t\<rparr>" book idx]
          insertion_index.simps [of ord book idx] split: sum.splits bool.splits)
qed

lemma same_but_refl: "same_but o1 o2 xs xs"
  by (simp add: same_but_def list_all2_same)

lemma same_but_list_insert: "same_but o1 o2 (list_insert idx o1 xs) (list_insert idx o2 xs)"
  unfolding same_but_def list_insert_def
  by (rule list_all2_appendI) (simp_all add: list_all2_same)

text \<open>
  Claim C6. For every order whose type is not \<^verbatim>\<open>market\<close> (\<^verbatim>\<open>stop\<close> and any unknown
  type included) \<^verbatim>\<open>add_order\<close> is the limit path: limit matching, then resting insertion
  of a remainder \<open>> 0\<close>. The call returns the same reports (or raises the same error)
  as for the same order with type \<^verbatim>\<open>limit\<close>, and leaves the same book: position by
  position the same orders, the incoming order, where it rests, carrying its own type.
\<close>
theorem non_market_orders_take_limit_path:
  assumes "otype ord \<noteq> ''market''"
  shows "add_order clk lob ord = limit_path clk lob ord \<and>
         (case add_order clk lob ord of
            (res, ord', lob') \<Rightarrow>
              (case add_order clk lob (ord\<lparr>otype := ''limit''\<rparr>) of
                 (res2, ord2, lob2) \<Rightarrow>
                   res2 = res \<and> ord2 = ord'\<lparr>otype := ''limit''\<rparr> \<and>
                   book_symbol lob2 = book_symbol lob' \<and>
                   same_but ord' ord2 (bids lob') (bids lob2) \<and>
                   same_but ord' ord2 (asks lob') (asks lob2)))"
proof
  show "add_order clk lob ord = limit_path clk lob ord"
    by (rule add_order_limit_path [OF assms])
next
  let ?ord2 = "ord\<lparr>otype := ''limit''\<rparr>"
  obtain res ord1 opp1 where
    loop: "match_limit_loop clk 0 ord (opposite lob ord) [] = (res, ord1, opp1)"
    by (cases "match_limit_loop clk 0 ord (opposite lob ord) []") auto
  have sd: "opposite lob ?ord2 = opposite lob ord" "own_side lob ?ord2 = own_side lob ord"
    "\<And>b xs. set_opposite b ?ord2 xs = set_opposite b ord xs"
    "\<And>b xs. set_own b ?ord2 xs = set_own b ord xs"
    by (simp_all add: own_side_def opposite_def set_own_def set_opposite_def)
  have loop2: "match_limit_loop clk 0 ?ord2 (opposite lob ?ord2) [] =
                 (res, ord1\<lparr>otype := ''limit''\<rparr>, opp1)"
    using loop by (simp add: sd match_limit_loop_retype)
  have a1: "add_order clk lob ord = limit_path clk lob ord"
    by (rule add_order_limit_path [OF assms])
  have a2: "add_order clk lob ?ord2 = limit_path clk lob ?ord2"
    by (rule add_order_limit_path) simp
  have bs: "\<And>xs ys. bids (set_own (set_opposite lob ord xs) ord ys) =
              (if side ord = ''buy'' then ys else xs)"
       "\<And>xs ys. asks (set_own (set_opposite lob ord xs) ord ys) =
              (if side ord = ''buy'' then xs else ys)"
    by (simp_all add: set_own_def set_opposite_def)
  show "case add_order clk lob ord of
            (res, ord', lob') \<Rightarrow>
              (case add_order clk lob (ord\<lparr>otype := ''limit''\<rparr>) of
                 (res2, ord2, lob2) \<Rightarrow>
                   res2 = res \<and> ord2 = ord'\<lparr>otype := ''limit''\<rparr> \<and>
                   book_symbol lob2 = book_symbol lob' \<and>
                   same_but ord' ord2 (bids lob') (bids lob2) \<and>
                   same_but ord' ord2 (asks lob') (asks lob2))"
    unfolding a1 a2 limit_path_unfold [OF loop] limit_path_unfold [OF loop2]
    by (simp add: sd insertion_index_retype same_but_refl same_but_list_insert bs
          split: sum.splits)
qed

theorem non_market_orders_take_limit_path_witness:
  "otype example_stop_sell \<noteq> ''market'' \<and>
   map oid (asks (snd (snd (add_order example_clock example_book example_stop_sell))))
     = [2, 3, 7, 4] \<and>
   add_order example_clock example_book example_stop_sell =
     limit_path example_clock example_book example_stop_sell \<and>
   (case add_order example_clock example_book example_stop_sell of
      (res, ord', lob') \<Rightarrow>
        (case add_order example_clock example_book (example_stop_sell\<lparr>otype := ''limit''\<rparr>) of
           (res2, ord2, lob2) \<Rightarrow>
             res2 = res \<and> ord2 = ord'\<lparr>otype := ''limit''\<rparr> \<and>
             book_symbol lob2 = book_symbol lob' \<and>
             same_but ord' ord2 (bids lob') (bids lob2) \<and>
             same_but ord' ord2 (asks lob') (asks lob2)))"
proof -
  have s: "otype example_stop_sell \<noteq> ''market''"
    by (simp add: example_stop_sell_def)
  have "map oid (asks (snd (snd (add_order example_clock example_book example_stop_sell))))
     = [2, 3, 7, 4]"
    by code_simp
  with s non_market_orders_take_limit_path [OF s, of example_clock example_book]
  show ?thesis by iprover
qed


subsection \<open>Resting insertion keeps a side sorted\<close>

subsubsection \<open>Prices as ranks\<close>

lemma has_priceE:
  assumes "has_price x"
  obtains v where "price x = Some v"
  using assms by (auto simp: has_price_def)

lemma rank_better:
  assumes "has_price x" and "has_price new"
  shows "strictly_better x new \<longleftrightarrow> rank (side new) x < rank (side new) new"
  using assms by (auto simp: strictly_better_def rank_def elim!: has_priceE)

lemma rank_equal:
  assumes "has_price x" and "has_price new"
  shows "price x = price new \<longleftrightarrow> rank (side new) x = rank (side new) new"
  using assms by (auto simp: rank_def elim!: has_priceE)

lemma rank_compare:
  assumes "has_price x" and "has_price new"
  shows "(if side new = ''buy'' then py_gt (price x) (price new)
          else py_lt (price x) (price new)) = Inr (rank (side new) x < rank (side new) new)"
  using assms by (auto simp: rank_def elim!: has_priceE)

lemma price_le_the:
  assumes "has_price x" and "has_price y"
  shows "price_le (price x) (price y) \<longleftrightarrow> the (price x) \<le> the (price y)"
  using assms by (auto elim!: has_priceE)

lemma price_lt_the:
  assumes "has_price x" and "has_price y"
  shows "price_lt (price x) (price y) \<longleftrightarrow> the (price x) < the (price y)"
  using assms by (auto elim!: has_priceE)

lemma sorted_wrt_cong_set:
  assumes "\<And>x y. x \<in> set xs \<Longrightarrow> y \<in> set xs \<Longrightarrow> P x y = Q x y"
  shows "sorted_wrt P xs = sorted_wrt Q xs"
  using assms by (induction xs) auto

lemma side_sorted_rank:
  "side_sorted new book \<longleftrightarrow>
     list_all has_price book \<and> sorted (map (rank (side new)) book)"
proof (cases "list_all has_price book")
  case True
  have "sorted_wrt (\<lambda>a b. price_le (price b) (price a)) book =
        sorted_wrt (\<lambda>a b. rank ''buy'' a \<le> rank ''buy'' b) book"
    by (rule sorted_wrt_cong_set)
       (use True in \<open>simp add: list_all_iff rank_def price_le_the\<close>)
  moreover
  have "side new \<noteq> ''buy'' \<Longrightarrow> sorted_wrt (\<lambda>a b. price_le (price a) (price b)) book =
        sorted_wrt (\<lambda>a b. rank (side new) a \<le> rank (side new) b) book"
    by (rule sorted_wrt_cong_set)
       (use True in \<open>simp add: list_all_iff rank_def price_le_the\<close>)
  ultimately show ?thesis
    using True
    by (auto simp: side_sorted_def bids_sorted_def asks_sorted_def sorted_wrt_map)
next
  case False
  then show ?thesis
    by (simp add: side_sorted_def bids_sorted_def asks_sorted_def)
qed

lemma opp_sorted_rank:
  "opp_sorted new book \<longleftrightarrow>
     list_all has_price book \<and>
     sorted_wrt (\<lambda>a b. rank (side new) b \<le> rank (side new) a) book"
proof (cases "list_all has_price book")
  case True
  have "sorted_wrt (\<lambda>a b. price_le (price a) (price b)) book =
        sorted_wrt (\<lambda>a b. rank ''buy'' b \<le> rank ''buy'' a) book"
    by (rule sorted_wrt_cong_set)
       (use True in \<open>simp add: list_all_iff rank_def price_le_the\<close>)
  moreover
  have "side new \<noteq> ''buy'' \<Longrightarrow> sorted_wrt (\<lambda>a b. price_le (price b) (price a)) book =
        sorted_wrt (\<lambda>a b. rank (side new) b \<le> rank (side new) a) book"
    by (rule sorted_wrt_cong_set)
       (use True in \<open>simp add: list_all_iff rank_def price_le_the\<close>)
  ultimately show ?thesis
    using True
    by (auto simp: opp_sorted_def bids_sorted_def asks_sorted_def)
next
  case False
  then show ?thesis
    by (simp add: opp_sorted_def bids_sorted_def asks_sorted_def)
qed

subsubsection \<open>The insertion index\<close>

lemma skip_same_price_spec:
  assumes "idx \<le> length book"
  shows "idx \<le> skip_same_price book p idx \<and> skip_same_price book p idx \<le> length book \<and>
         (\<forall>i. idx \<le> i \<and> i < skip_same_price book p idx \<longrightarrow> price (book ! i) = p) \<and>
         (skip_same_price book p idx < length book \<longrightarrow>
            price (book ! skip_same_price book p idx) \<noteq> p)"
  using assms
proof (induction book p idx rule: skip_same_price.induct)
  case (1 book p idx)
  show ?case
  proof (cases "idx < length book \<and> price (book ! idx) = p")
    case True
    then have eq: "skip_same_price book p idx = skip_same_price book p (Suc idx)"
      by (subst skip_same_price.simps) simp
    from True have "Suc idx \<le> length book" by simp
    from "1.IH" [OF True this]
    have ih: "Suc idx \<le> skip_same_price book p (Suc idx)"
      "skip_same_price book p (Suc idx) \<le> length book"
      "\<And>i. Suc idx \<le> i \<Longrightarrow> i < skip_same_price book p (Suc idx) \<Longrightarrow> price (book ! i) = p"
      "skip_same_price book p (Suc idx) < length book \<Longrightarrow>
         price (book ! skip_same_price book p (Suc idx)) \<noteq> p"
      by blast+
    have "price (book ! i) = p" if "idx \<le> i" "i < skip_same_price book p (Suc idx)" for i
    proof (cases "i = idx")
      case True
      with \<open>idx < length book \<and> price (book ! idx) = p\<close> show ?thesis by simp
    next
      case False
      with that have "Suc idx \<le> i" by simp
      then show ?thesis using that(2) by (rule ih(3))
    qed
    with ih show ?thesis
      unfolding eq by (simp add: Suc_leD)
  next
    case False
    then have "skip_same_price book p idx = idx"
      by (subst skip_same_price.simps) auto
    with False "1.prems" show ?thesis by auto
  qed
qed

lemma insertion_index_unfold:
  assumes "has_price ord" and "list_all has_price book"
  shows "insertion_index ord book idx =
     (if idx < length book then
        (if rank (side ord) (book ! idx) < rank (side ord) ord
         then insertion_index ord book (Suc idx)
         else Inr (skip_same_price book (price ord) idx))
      else Inr idx)"
proof (cases "idx < length book")
  case True
  with assms(2) have "has_price (book ! idx)"
    by (simp add: list_all_length)
  from rank_compare [OF this assms(1)] True show ?thesis
    by (subst insertion_index.simps) (auto split: if_splits)
next
  case False
  then show ?thesis
    by (subst insertion_index.simps) simp
qed

lemma insertion_index_spec:
  assumes "has_price ord" and "list_all has_price book" and "idx \<le> length book"
  shows "\<exists>r j. insertion_index ord book idx = Inr r \<and> idx \<le> j \<and> j \<le> r \<and> r \<le> length book \<and>
           (\<forall>i. idx \<le> i \<and> i < j \<longrightarrow> rank (side ord) (book ! i) < rank (side ord) ord) \<and>
           (j < length book \<longrightarrow> rank (side ord) ord \<le> rank (side ord) (book ! j)) \<and>
           (\<forall>i. j \<le> i \<and> i < r \<longrightarrow> price (book ! i) = price ord) \<and>
           (r < length book \<longrightarrow> price (book ! r) \<noteq> price ord)"
  using assms(3)
proof (induction "length book - idx" arbitrary: idx)
  case 0
  then have "insertion_index ord book idx = Inr idx" "idx = length book"
    by (simp_all add: insertion_index_unfold [OF assms(1,2)])
  then show ?case by auto
next
  case (Suc n)
  then have lt: "idx < length book" by simp
  show ?case
  proof (cases "rank (side ord) (book ! idx) < rank (side ord) ord")
    case True
    from Suc have "n = length book - Suc idx" "Suc idx \<le> length book" by simp_all
    from Suc.hyps(1) [OF this] obtain r j where
      rj: "insertion_index ord book (Suc idx) = Inr r" "Suc idx \<le> j" "j \<le> r" "r \<le> length book"
        "\<And>i. Suc idx \<le> i \<Longrightarrow> i < j \<Longrightarrow> rank (side ord) (book ! i) < rank (side ord) ord"
        "j < length book \<longrightarrow> rank (side ord) ord \<le> rank (side ord) (book ! j)"
        "\<forall>i. j \<le> i \<and> i < r \<longrightarrow> price (book ! i) = price ord"
        "r < length book \<longrightarrow> price (book ! r) \<noteq> price ord"
      by blast
    have "rank (side ord) (book ! i) < rank (side ord) ord" if "idx \<le> i" "i < j" for i
    proof (cases "i = idx")
      case True
      with \<open>rank (side ord) (book ! idx) < rank (side ord) ord\<close> show ?thesis by simp
    next
      case False
      with that have "Suc idx \<le> i" by simp
      then show ?thesis using that(2) by (rule rj(5))
    qed
    moreover have "insertion_index ord book idx = Inr r"
      using lt True rj(1) by (simp add: insertion_index_unfold [OF assms(1,2), of idx])
    moreover have "idx \<le> j" using rj(2) by simp
    ultimately show ?thesis
      using rj(3,4,6,7,8) by blast
  next
    case False
    let ?r = "skip_same_price book (price ord) idx"
    have "insertion_index ord book idx = Inr ?r"
      using lt False by (simp add: insertion_index_unfold [OF assms(1,2), of idx])
    moreover from skip_same_price_spec [OF Suc.prems, of "price ord"]
    have "idx \<le> ?r" "?r \<le> length book"
      "\<forall>i. idx \<le> i \<and> i < ?r \<longrightarrow> price (book ! i) = price ord"
      "?r < length book \<longrightarrow> price (book ! ?r) \<noteq> price ord"
      by blast+
    moreover have "idx < length book \<longrightarrow> rank (side ord) ord \<le> rank (side ord) (book ! idx)"
      using False by simp
    moreover have "\<forall>i. idx \<le> i \<and> i < idx \<longrightarrow> rank (side ord) (book ! i) < rank (side ord) ord"
      by simp
    ultimately show ?thesis
      by (intro exI [of _ ?r] exI [of _ idx]) simp
  qed
qed

lemma insertion_index_sorted:
  assumes "has_price ord" and "list_all has_price book"
    and "sorted (map (rank (side ord)) book)"
  obtains r where "insertion_index ord book 0 = Inr r" and "r \<le> length book"
    and "\<And>i. i < r \<Longrightarrow> rank (side ord) (book ! i) \<le> rank (side ord) ord"
    and "\<And>i. r \<le> i \<Longrightarrow> i < length book \<Longrightarrow> rank (side ord) ord < rank (side ord) (book ! i)"
proof -
  let ?f = "rank (side ord)"
  from insertion_index_spec [OF assms(1,2), of 0] obtain r j where
    rj: "insertion_index ord book 0 = Inr r" "j \<le> r" "r \<le> length book"
      "\<And>i. i < j \<Longrightarrow> ?f (book ! i) < ?f ord"
      "j < length book \<Longrightarrow> ?f ord \<le> ?f (book ! j)"
      "\<And>i. j \<le> i \<Longrightarrow> i < r \<Longrightarrow> price (book ! i) = price ord"
      "r < length book \<Longrightarrow> price (book ! r) \<noteq> price ord"
    by auto
  have hp: "has_price (book ! i)" if "i < length book" for i
    using assms(2) that by (simp add: list_all_length)
  have mono: "?f (book ! i) \<le> ?f (book ! k)" if "i \<le> k" "k < length book" for i k
    using assms(3) that by (auto simp: sorted_iff_nth_mono dest!: spec [of _ i] spec [of _ k])
  have before: "?f (book ! i) \<le> ?f ord" if "i < r" for i
  proof (cases "i < j")
    case True
    then show ?thesis using rj(4) by (simp add: less_imp_le)
  next
    case False
    then have "price (book ! i) = price ord" using rj(6) that by simp
    moreover have "has_price (book ! i)" using that rj(3) by (intro hp) simp
    ultimately show ?thesis using rank_equal [OF _ assms(1)] by simp
  qed
  have at_r: "?f ord < ?f (book ! r)" if "r < length book"
  proof -
    have ne: "?f (book ! r) \<noteq> ?f ord"
      using rj(7) [OF that] rank_equal [OF hp [OF that] assms(1)] by simp
    have "?f ord \<le> ?f (book ! r)"
    proof (cases "j = r")
      case True
      with rj(5) that show ?thesis by simp
    next
      case False
      with rj(2) have "j < r" by simp
      then have "j \<le> r - 1" "r - 1 < r" by simp_all
      then have "price (book ! (r - 1)) = price ord" by (rule rj(6))
      moreover have "has_price (book ! (r - 1))" using that by (intro hp) simp
      ultimately have "?f (book ! (r - 1)) = ?f ord"
        using rank_equal [OF _ assms(1)] by simp
      moreover have "?f (book ! (r - 1)) \<le> ?f (book ! r)"
        using that by (intro mono) simp_all
      ultimately show ?thesis by simp
    qed
    with ne show ?thesis by simp
  qed
  have after: "?f ord < ?f (book ! i)" if "r \<le> i" "i < length book" for i
  proof -
    from that have "r < length book" by simp
    from at_r [OF this] mono [OF that] show ?thesis by simp
  qed
  from rj(1,3) before after show ?thesis by (rule that)
qed

lemma sorted_list_insert:
  assumes "sorted (map f book)" and "r \<le> length book"
    and "\<And>i. i < r \<Longrightarrow> f (book ! i) \<le> f x"
    and "\<And>i. r \<le> i \<Longrightarrow> i < length book \<Longrightarrow> f x \<le> f (book ! i)"
  shows "sorted (map f (list_insert r x book))"
proof -
  have tk: "\<forall>a\<in>set (take r book). f a \<le> f x"
    using assms(2,3) by (auto simp: in_set_conv_nth)
  have dr: "\<forall>b\<in>set (drop r book). f x \<le> f b"
    using assms(2,4) by (auto simp: in_set_conv_nth)
  have "sorted (map f (take r book @ drop r book))"
    using assms(1) by simp
  then have "sorted (map f (take r book))" "sorted (map f (drop r book))"
    by (simp_all only: map_append sorted_append)
  with tk dr show ?thesis
    by (fastforce simp: list_insert_def sorted_append)
qed

text \<open>
  Claim C3. When the side an order goes to is sorted (bids descending, asks ascending,
  equal prices in arrival order) and the order has a price, \<^verbatim>\<open>_insert_resting\<close> does not
  raise and inserts the order at an index \<open>idx\<close> such that the existing orders before
  \<open>idx\<close> are exactly those with a strictly better price or with the order's own price.
  The existing orders keep their relative order, the new order follows every order at
  its own price, and the side is sorted again.
\<close>
theorem insert_resting_position:
  assumes "side_sorted ord (own_side lob ord)" and "has_price ord"
  shows "\<exists>idx. idx \<le> length (own_side lob ord) \<and>
           insert_resting lob ord =
             Inr (set_own lob ord (list_insert idx ord (own_side lob ord))) \<and>
           (\<forall>i<length (own_side lob ord).
              (strictly_better (own_side lob ord ! i) ord \<or>
               price (own_side lob ord ! i) = price ord) \<longleftrightarrow> i < idx) \<and>
           (\<forall>i<idx. list_insert idx ord (own_side lob ord) ! i = own_side lob ord ! i) \<and>
           list_insert idx ord (own_side lob ord) ! idx = ord \<and>
           (\<forall>i<length (own_side lob ord).
              idx \<le> i \<longrightarrow> list_insert idx ord (own_side lob ord) ! Suc i = own_side lob ord ! i) \<and>
           side_sorted ord (list_insert idx ord (own_side lob ord))"
proof -
  let ?book = "own_side lob ord" and ?f = "rank (side ord)"
  from assms(1) have hp: "list_all has_price ?book" and so: "sorted (map ?f ?book)"
    by (simp_all add: side_sorted_rank)
  from insertion_index_sorted [OF assms(2) hp so] obtain r where
    r: "insertion_index ord ?book 0 = Inr r" "r \<le> length ?book"
      "\<And>i. i < r \<Longrightarrow> ?f (?book ! i) \<le> ?f ord"
      "\<And>i. r \<le> i \<Longrightarrow> i < length ?book \<Longrightarrow> ?f ord < ?f (?book ! i)"
    by blast
  have r1: "insert_resting lob ord = Inr (set_own lob ord (list_insert r ord ?book))"
    using r(1) by (simp add: insert_resting_sides)
  have r2: "(strictly_better (?book ! i) ord \<or> price (?book ! i) = price ord) \<longleftrightarrow> i < r"
    if "i < length ?book" for i
  proof -
    from hp that have "has_price (?book ! i)" by (simp add: list_all_length)
    from rank_better [OF this assms(2)] rank_equal [OF this assms(2)]
    have "(strictly_better (?book ! i) ord \<or> price (?book ! i) = price ord) \<longleftrightarrow>
            ?f (?book ! i) \<le> ?f ord"
      by auto
    also have "\<dots> \<longleftrightarrow> i < r"
      using r(3) [of i] r(4) [of i] that by (cases "i < r") auto
    finally show ?thesis .
  qed
  have r3: "\<forall>i<r. list_insert r ord ?book ! i = ?book ! i"
    using r(2) by (simp add: list_insert_def nth_append)
  have r4: "list_insert r ord ?book ! r = ord"
    using r(2) by (simp add: list_insert_def nth_append)
  have r5: "\<forall>i<length ?book. r \<le> i \<longrightarrow> list_insert r ord ?book ! Suc i = ?book ! i"
    using r(2) by (auto simp: list_insert_def nth_append Suc_diff_le)
  have "?f ord \<le> ?f (?book ! i)" if "r \<le> i" "i < length ?book" for i
    using r(4) [OF that] by simp
  with so r(2) r(3) have "sorted (map ?f (list_insert r ord ?book))"
    by (rule sorted_list_insert)
  moreover have "list_all has_price (list_insert r ord ?book)"
    using hp assms(2)
    by (auto simp: list_insert_def list_all_iff dest: in_set_takeD in_set_dropD)
  ultimately have r6: "side_sorted ord (list_insert r ord ?book)"
    by (simp add: side_sorted_rank)
  from r(2) r1 r2 r3 r4 r5 r6 show ?thesis by blast
qed

theorem insert_resting_position_witness:
  "side_sorted example_stop_sell (own_side example_book example_stop_sell) \<and>
   has_price example_stop_sell \<and>
   insert_resting example_book example_stop_sell =
     Inr (example_book\<lparr>asks := list_insert 2 example_stop_sell (asks example_book)\<rparr>) \<and>
   map oid (list_insert 2 example_stop_sell (asks example_book)) = [2, 3, 7, 4] \<and>
   (\<exists>idx. idx \<le> length (own_side example_book example_stop_sell) \<and>
      insert_resting example_book example_stop_sell =
        Inr (set_own example_book example_stop_sell
               (list_insert idx example_stop_sell (own_side example_book example_stop_sell))) \<and>
      (\<forall>i<length (own_side example_book example_stop_sell).
         (strictly_better (own_side example_book example_stop_sell ! i) example_stop_sell \<or>
          price (own_side example_book example_stop_sell ! i) = price example_stop_sell)
           \<longleftrightarrow> i < idx) \<and>
      (\<forall>i<idx. list_insert idx example_stop_sell (own_side example_book example_stop_sell) ! i =
                 own_side example_book example_stop_sell ! i) \<and>
      list_insert idx example_stop_sell (own_side example_book example_stop_sell) ! idx =
        example_stop_sell \<and>
      (\<forall>i<length (own_side example_book example_stop_sell).
         idx \<le> i \<longrightarrow>
           list_insert idx example_stop_sell (own_side example_book example_stop_sell) ! Suc i =
             own_side example_book example_stop_sell ! i) \<and>
      side_sorted example_stop_sell
        (list_insert idx example_stop_sell (own_side example_book example_stop_sell)))"
proof -
  have a: "side_sorted example_stop_sell (own_side example_book example_stop_sell)"
    by code_simp
  have b: "has_price example_stop_sell"
    by code_simp
  have c: "insert_resting example_book example_stop_sell =
     Inr (example_book\<lparr>asks := list_insert 2 example_stop_sell (asks example_book)\<rparr>)"
    by code_simp
  have d: "map oid (list_insert 2 example_stop_sell (asks example_book)) = [2, 3, 7, 4]"
    by code_simp
  from a b c d insert_resting_position [OF a b] show ?thesis
    by iprover
qed

subsection \<open>The book is never left crossed\<close>

lemma rank_quantity_update [simp]:
  "rank sd (x\<lparr>quantity := q\<rparr>) = rank sd x"
  "has_price (x\<lparr>quantity := q\<rparr>) = has_price x"
  by (simp_all add: rank_def has_price_def)

lemma not_crossed_rank:
  assumes "list_all has_price (own_side lob ord)" and "list_all has_price (opposite lob ord)"
  shows "not_crossed lob \<longleftrightarrow>
           (own_side lob ord \<noteq> [] \<and> opposite lob ord \<noteq> [] \<longrightarrow>
              rank (side ord) (hd (opposite lob ord)) < rank (side ord) (hd (own_side lob ord)))"
proof (cases "own_side lob ord \<noteq> [] \<and> opposite lob ord \<noteq> []")
  case True
  with assms have "has_price (hd (own_side lob ord))" "has_price (hd (opposite lob ord))"
    by (simp_all add: list_all_iff)
  then show ?thesis
    using True
    by (auto simp: not_crossed_def own_side_def opposite_def rank_def price_lt_the
             split: if_splits)
next
  case False
  then show ?thesis
    by (auto simp: not_crossed_def own_side_def opposite_def split: if_splits)
qed

lemma book_inv_sides:
  "book_inv lob \<longleftrightarrow>
     side_sorted ord (own_side lob ord) \<and> opp_sorted ord (opposite lob ord) \<and>
     all_positive (own_side lob ord) \<and> all_positive (opposite lob ord) \<and> not_crossed lob"
  by (auto simp: book_inv_def side_sorted_def opp_sorted_def own_side_def opposite_def)

lemma limit_break_rank:
  assumes "has_price ord" and "has_price best"
  shows "limit_break ord best =
           Inr ((side ord = ''buy'' \<or> side ord = ''sell'') \<and>
                rank (side ord) best < rank (side ord) ord)"
  using assms by (auto simp: limit_break_def rank_def elim!: has_priceE split: bool.splits)

text \<open>What the matching loops keep true of the opposite list \<open>xs\<close>, started at \<open>opp0\<close>.\<close>

lemma opposite_fill:
  assumes "list_all has_price xs"
    and "sorted_wrt (\<lambda>a b. rank sd b \<le> rank sd a) xs"
    and "xs \<noteq> [] \<longrightarrow> opp0 \<noteq> [] \<and> rank sd (hd xs) \<le> rank sd (hd opp0)"
    and "xs \<noteq> []"
  shows "list_all has_price (opp_post (market_fill t x xs)) \<and>
         sorted_wrt (\<lambda>a b. rank sd b \<le> rank sd a) (opp_post (market_fill t x xs)) \<and>
         (opp_post (market_fill t x xs) \<noteq> [] \<longrightarrow>
            opp0 \<noteq> [] \<and> rank sd (hd (opp_post (market_fill t x xs))) \<le> rank sd (hd opp0))"
proof (cases xs)
  case Nil
  with assms(4) show ?thesis by simp
next
  case (Cons b rest)
  have "rest \<noteq> [] \<Longrightarrow> rank sd (hd rest) \<le> rank sd b"
    using assms(2) Cons by (cases rest) auto
  moreover have "rank sd b \<le> rank sd (hd opp0)" "opp0 \<noteq> []"
    using assms(3) Cons by simp_all
  ultimately have "rest \<noteq> [] \<Longrightarrow> rank sd (hd rest) \<le> rank sd (hd opp0)"
    by simp
  with assms(1-3) Cons show ?thesis
    by (simp add: market_fill_post)
qed

lemma insertion_sorted:
  assumes "side_sorted ord book" and "has_price ord"
  obtains r where "insertion_index ord book 0 = Inr r" and "r \<le> length book"
    and "side_sorted ord (list_insert r ord book)"
proof -
  let ?f = "rank (side ord)"
  from assms(1) have hp: "list_all has_price book" and so: "sorted (map ?f book)"
    by (simp_all add: side_sorted_rank)
  from insertion_index_sorted [OF assms(2) hp so] obtain r where
    r: "insertion_index ord book 0 = Inr r" "r \<le> length book"
      "\<And>i. i < r \<Longrightarrow> ?f (book ! i) \<le> ?f ord"
      "\<And>i. r \<le> i \<Longrightarrow> i < length book \<Longrightarrow> ?f ord < ?f (book ! i)"
    by blast
  have "?f ord \<le> ?f (book ! i)" if "r \<le> i" "i < length book" for i
    using r(4) [OF that] by simp
  with so r(2) r(3) have "sorted (map ?f (list_insert r ord book))"
    by (rule sorted_list_insert)
  moreover have "list_all has_price (list_insert r ord book)"
    using hp assms(2)
    by (auto simp: list_insert_def list_all_iff dest: in_set_takeD in_set_dropD)
  ultimately have "side_sorted ord (list_insert r ord book)"
    by (simp add: side_sorted_rank)
  with r(1,2) show ?thesis by (rule that)
qed

lemma hd_list_insert:
  "hd (list_insert r x xs) = (if r = 0 \<or> xs = [] then x else hd xs)"
  by (cases xs; cases r) (simp_all add: list_insert_def)

lemma book_inv_intro:
  assumes "side_sorted ord (own_side lob' ord)" and "all_positive (own_side lob' ord)"
    and "list_all has_price (opposite lob' ord)"
    and "sorted_wrt (\<lambda>a b. rank (side ord) b \<le> rank (side ord) a) (opposite lob' ord)"
    and "all_positive (opposite lob' ord)"
    and "own_side lob' ord \<noteq> [] \<Longrightarrow> opposite lob' ord \<noteq> [] \<Longrightarrow>
           rank (side ord) (hd (opposite lob' ord)) < rank (side ord) (hd (own_side lob' ord))"
  shows "book_inv lob'"
proof -
  from assms(1) have "list_all has_price (own_side lob' ord)"
    by (simp add: side_sorted_rank)
  from not_crossed_rank [OF this assms(3)] assms(6) have "not_crossed lob'"
    by blast
  with assms(1-5) show ?thesis
    by (simp add: book_inv_sides [of lob' ord] opp_sorted_rank)
qed

lemma book_inv_elim:
  assumes "book_inv lob"
  shows "side_sorted ord (own_side lob ord)" and "all_positive (own_side lob ord)"
    and "list_all has_price (opposite lob ord)"
    and "sorted_wrt (\<lambda>a b. rank (side ord) b \<le> rank (side ord) a) (opposite lob ord)"
    and "all_positive (opposite lob ord)"
    and "own_side lob ord \<noteq> [] \<Longrightarrow> opposite lob ord \<noteq> [] \<Longrightarrow>
           rank (side ord) (hd (opposite lob ord)) < rank (side ord) (hd (own_side lob ord))"
proof -
  from assms have a: "side_sorted ord (own_side lob ord)" "opp_sorted ord (opposite lob ord)"
    "all_positive (own_side lob ord)" "all_positive (opposite lob ord)" "not_crossed lob"
    by (simp_all add: book_inv_sides [of lob ord])
  from a(1) have hp: "list_all has_price (own_side lob ord)"
    by (simp add: side_sorted_rank)
  from a(2) have ho: "list_all has_price (opposite lob ord)"
    "sorted_wrt (\<lambda>a b. rank (side ord) b \<le> rank (side ord) a) (opposite lob ord)"
    by (simp_all add: opp_sorted_rank)
  show "side_sorted ord (own_side lob ord)" "all_positive (own_side lob ord)"
    "list_all has_price (opposite lob ord)"
    "sorted_wrt (\<lambda>a b. rank (side ord) b \<le> rank (side ord) a) (opposite lob ord)"
    "all_positive (opposite lob ord)"
    by (fact a ho)+
  show "rank (side ord) (hd (opposite lob ord)) < rank (side ord) (hd (own_side lob ord))"
    if "own_side lob ord \<noteq> []" "opposite lob ord \<noteq> []"
    using not_crossed_rank [OF hp ho(1)] a(5) that by blast
qed

lemma loop_inv_start:
  assumes "list_all has_price opp0"
    and "sorted_wrt (\<lambda>a b. rank (side ord) b \<le> rank (side ord) a) opp0"
    and "all_positive opp0"
  shows "loop_inv ord opp0 ord opp0"
  using assms by (simp add: loop_inv_def quantity_update_same)

lemma loop_inv_fill:
  assumes "loop_inv ord opp0 x xs" and "xs \<noteq> []"
  shows "loop_inv ord opp0 (taker_post (market_fill t x xs)) (opp_post (market_fill t x xs))"
proof -
  from assms(1) obtain q where q: "x = ord\<lparr>quantity := q\<rparr>"
    by (auto simp: loop_inv_def)
  have "\<exists>q'. taker_post (market_fill t x xs) = ord\<lparr>quantity := q'\<rparr>"
    unfolding q by (simp add: market_fill_post) blast
  moreover from assms have
    "list_all has_price (opp_post (market_fill t x xs)) \<and>
     sorted_wrt (\<lambda>a b. rank (side ord) b \<le> rank (side ord) a) (opp_post (market_fill t x xs)) \<and>
     (opp_post (market_fill t x xs) \<noteq> [] \<longrightarrow>
        opp0 \<noteq> [] \<and> rank (side ord) (hd (opp_post (market_fill t x xs))) \<le> rank (side ord) (hd opp0))"
    by (intro opposite_fill) (simp_all add: loop_inv_def)
  moreover from assms(1) have "all_positive (opp_post (market_fill t x xs))"
    by (intro all_positive_fill) (simp add: loop_inv_def)
  ultimately show ?thesis
    by (simp add: loop_inv_def)
qed

lemma market_path_inv:
  assumes "book_inv lob" and "otype ord = ''market''"
  shows "case add_order clk lob ord of
           (res, ord', lob') \<Rightarrow> (\<exists>rs. res = Inr rs) \<and> book_inv lob'"
proof -
  note inv = book_inv_elim [OF assms(1), of ord]
  obtain rs ord1 opp1 where
    loop: "execute_market_loop clk 0 ord (opposite lob ord) [] = (rs, ord1, opp1)"
    by (cases "execute_market_loop clk 0 ord (opposite lob ord) []") auto
  have "case execute_market_loop clk 0 ord (opposite lob ord) [] of
          (rs, ord', opp') \<Rightarrow> loop_inv ord (opposite lob ord) ord' opp' \<and>
                              (quantity ord' \<le> 0 \<or> opp' = [])"
    by (rule execute_market_loop_rule [where I = "loop_inv ord (opposite lob ord)"])
       (simp_all add: loop_inv_start inv loop_inv_fill)
  with loop have li: "loop_inv ord (opposite lob ord) ord1 opp1" by simp
  let ?lob' = "set_opposite lob ord opp1"
  have res: "add_order clk lob ord = (Inr rs, ord1, ?lob')"
    using loop by (simp add: add_order_market [OF assms(2)])
  have "book_inv ?lob'"
  proof (rule book_inv_intro [where ord = ord])
    show "side_sorted ord (own_side ?lob' ord)" "all_positive (own_side ?lob' ord)"
      using inv(1,2) by simp_all
    show "list_all has_price (opposite ?lob' ord)"
      "sorted_wrt (\<lambda>a b. rank (side ord) b \<le> rank (side ord) a) (opposite ?lob' ord)"
      "all_positive (opposite ?lob' ord)"
      using li by (simp_all add: loop_inv_def)
    show "rank (side ord) (hd (opposite ?lob' ord)) < rank (side ord) (hd (own_side ?lob' ord))"
      if "own_side ?lob' ord \<noteq> []" "opposite ?lob' ord \<noteq> []"
    proof -
      from that li have "opposite lob ord \<noteq> []"
        "rank (side ord) (hd opp1) \<le> rank (side ord) (hd (opposite lob ord))"
        by (simp_all add: loop_inv_def)
      with inv(6) that show ?thesis by simp
    qed
  qed
  with res show ?thesis by simp
qed

lemma limit_path_inv:
  assumes "book_inv lob" and "has_price ord"
  shows "case limit_path clk lob ord of
           (res, ord', lob') \<Rightarrow> (\<exists>rs. res = Inr rs) \<and> book_inv lob'"
proof -
  let ?sd = "side ord" and ?own = "own_side lob ord" and ?opp = "opposite lob ord"
  note inv = book_inv_elim [OF assms(1), of ord]
  obtain res ord1 opp1 where
    loop: "match_limit_loop clk 0 ord ?opp [] = (res, ord1, opp1)"
    by (cases "match_limit_loop clk 0 ord ?opp []") auto
  have rule: "case match_limit_loop clk 0 ord ?opp [] of
           (Inl e, ord', opp') \<Rightarrow>
              loop_inv ord ?opp ord' opp' \<and> 0 < quantity ord' \<and> opp' \<noteq> [] \<and>
              limit_break ord' (hd opp') = Inl e
         | (Inr rs, ord', opp') \<Rightarrow>
              loop_inv ord ?opp ord' opp' \<and>
              (quantity ord' \<le> 0 \<or> opp' = [] \<or> limit_break ord' (hd opp') = Inr True)"
    by (rule match_limit_loop_rule [where I = "loop_inv ord ?opp"])
       (simp_all add: loop_inv_start inv loop_inv_fill limit_fill_post)
  from rule loop have li: "loop_inv ord ?opp ord1 opp1"
    by (cases res) simp_all
  then obtain q where q: "ord1 = ord\<lparr>quantity := q\<rparr>"
    by (auto simp: loop_inv_def)
  have o1: "has_price ord1" "side ord1 = ?sd" "rank ?sd ord1 = rank ?sd ord"
    using assms(2) by (simp_all add: q)
  have hd1: "has_price (hd opp1)" if "opp1 \<noteq> []"
    using li that by (simp add: loop_inv_def list_all_iff)
  obtain rs where res: "res = Inr rs"
  proof (cases res)
    case (Inl e)
    with rule loop have "opp1 \<noteq> []" "limit_break ord1 (hd opp1) = Inl e" by simp_all
    with limit_break_rank [OF o1(1) hd1] show ?thesis by simp
  next
    case (Inr rs)
    then show ?thesis by (rule that)
  qed
  have stop: "rank ?sd (hd opp1) < rank ?sd ord1" if "0 < quantity ord1" "opp1 \<noteq> []"
  proof -
    from rule loop res that have "limit_break ord1 (hd opp1) = Inr True" by simp
    with limit_break_rank [OF o1(1) hd1 [OF that(2)]] o1(2) show ?thesis by simp
  qed
  have worse: "?opp \<noteq> []" "rank ?sd (hd opp1) \<le> rank ?sd (hd ?opp)" if "opp1 \<noteq> []"
    using li that by (simp_all add: loop_inv_def)
  have opp1: "list_all has_price opp1"
    "sorted_wrt (\<lambda>a b. rank ?sd b \<le> rank ?sd a) opp1" "all_positive opp1"
    using li by (simp_all add: loop_inv_def)
  show ?thesis
  proof (cases "0 < quantity ord1")
    case False
    let ?lob' = "set_opposite lob ord opp1"
    have "book_inv ?lob'"
    proof (rule book_inv_intro [where ord = ord])
      show "side_sorted ord (own_side ?lob' ord)" "all_positive (own_side ?lob' ord)"
        using inv(1,2) by simp_all
      show "list_all has_price (opposite ?lob' ord)"
        "sorted_wrt (\<lambda>a b. rank ?sd b \<le> rank ?sd a) (opposite ?lob' ord)"
        "all_positive (opposite ?lob' ord)"
        using opp1 by simp_all
      show "rank ?sd (hd (opposite ?lob' ord)) < rank ?sd (hd (own_side ?lob' ord))"
        if "own_side ?lob' ord \<noteq> []" "opposite ?lob' ord \<noteq> []"
        using that worse inv(6) by simp
    qed
    with False res show ?thesis
      by (simp add: limit_path_unfold [OF loop])
  next
    case True
    have "side_sorted ord1 ?own"
      using inv(1) o1(2) by (simp add: side_sorted_def)
    from insertion_sorted [OF this o1(1)] obtain r where
      r: "insertion_index ord1 ?own 0 = Inr r" "r \<le> length ?own"
        "side_sorted ord1 (list_insert r ord1 ?own)"
      by blast
    let ?lob' = "set_own (set_opposite lob ord opp1) ord (list_insert r ord1 ?own)"
    have "book_inv ?lob'"
    proof (rule book_inv_intro [where ord = ord])
      show "side_sorted ord (own_side ?lob' ord)"
        using r(3) o1(2) by (simp add: side_sorted_def)
      show "all_positive (own_side ?lob' ord)"
        using inv(2) True by (simp add: all_positive_list_insert)
      show "list_all has_price (opposite ?lob' ord)"
        "sorted_wrt (\<lambda>a b. rank ?sd b \<le> rank ?sd a) (opposite ?lob' ord)"
        "all_positive (opposite ?lob' ord)"
        using opp1 by simp_all
      show "rank ?sd (hd (opposite ?lob' ord)) < rank ?sd (hd (own_side ?lob' ord))"
        if "own_side ?lob' ord \<noteq> []" "opposite ?lob' ord \<noteq> []"
      proof -
        from that have ne: "opp1 \<noteq> []" by simp
        show ?thesis
        proof (cases "r = 0 \<or> ?own = []")
          case True
          with stop [OF \<open>0 < quantity ord1\<close> ne] show ?thesis
            by (simp add: hd_list_insert)
        next
          case False
          with worse [OF ne] inv(6) show ?thesis
            by (simp add: hd_list_insert)
        qed
      qed
    qed
    with True res r(1) show ?thesis
      by (simp add: limit_path_unfold [OF loop])
  qed
qed

text \<open>
  Claim C1. On a book that satisfies the invariants (both sides sorted, every resting
  quantity \<open>> 0\<close>, best bid strictly below best ask when both sides are non-empty), for
  an incoming order with quantity \<open>> 0\<close> and, unless it is a market order, a price:
  \<^verbatim>\<open>add_order\<close> returns without raising, the book satisfies the invariants again, and
  in particular, if both sides are non-empty, the price of the first bid is strictly
  less than the price of the first ask.
\<close>
theorem add_order_not_crossed:
  assumes "book_inv lob" and "order_ok ord"
  shows "case add_order clk lob ord of
           (res, ord', lob') \<Rightarrow>
             (\<exists>reports. res = Inr reports) \<and> book_inv lob' \<and>
             (bids lob' \<noteq> [] \<and> asks lob' \<noteq> [] \<longrightarrow>
                price_lt (price (hd (bids lob'))) (price (hd (asks lob'))))"
proof -
  have "case add_order clk lob ord of
           (res, ord', lob') \<Rightarrow> (\<exists>rs. res = Inr rs) \<and> book_inv lob'"
  proof (cases "otype ord = ''market''")
    case True
    with assms(1) show ?thesis by (rule market_path_inv)
  next
    case False
    with assms(2) have "has_price ord" by (simp add: order_ok_def)
    with assms(1) have "case limit_path clk lob ord of
           (res, ord', lob') \<Rightarrow> (\<exists>rs. res = Inr rs) \<and> book_inv lob'"
      by (rule limit_path_inv)
    then show ?thesis by (simp add: add_order_limit_path [OF False])
  qed
  then show ?thesis
    by (auto simp: book_inv_def not_crossed_def)
qed

theorem add_order_not_crossed_witness:
  "book_inv example_book \<and> order_ok example_limit_sell \<and>
   map (\<lambda>x. (oid x, price x, quantity x))
     (bids (snd (snd (add_order example_clock example_book example_limit_sell)))) =
     [(9, Some 9, 40)] \<and>
   map (\<lambda>x. (oid x, price x, quantity x))
     (asks (snd (snd (add_order example_clock example_book example_limit_sell)))) =
     [(10, Some 10, 50), (2, Some 12, 30), (3, Some 12, 20), (4, Some 15, 50)] \<and>
   (case add_order example_clock example_book example_limit_sell of
      (res, ord', lob') \<Rightarrow>
        (\<exists>reports. res = Inr reports) \<and> book_inv lob' \<and>
        (bids lob' \<noteq> [] \<and> asks lob' \<noteq> [] \<longrightarrow>
           price_lt (price (hd (bids lob'))) (price (hd (asks lob')))))"
proof -
  have a: "book_inv example_book"
    by code_simp
  have b: "order_ok example_limit_sell"
    by code_simp
  have c: "map (\<lambda>x. (oid x, price x, quantity x))
     (bids (snd (snd (add_order example_clock example_book example_limit_sell)))) =
     [(9, Some 9, 40)]"
    by code_simp
  have d: "map (\<lambda>x. (oid x, price x, quantity x))
     (asks (snd (snd (add_order example_clock example_book example_limit_sell)))) =
     [(10, Some 10, 50), (2, Some 12, 30), (3, Some 12, 20), (4, Some 15, 50)]"
    by code_simp
  from a b c d add_order_not_crossed [OF a b, of example_clock] show ?thesis
    by iprover
qed

subsection \<open>Order objects and their values\<close>

text \<open>
  On a book whose references are distinct, for an incoming reference that is not in the
  book, the program on references does what the program on values does.
\<close>

lemma execute_market_loop_r_stop:
  "\<not> (0 < quantity (h t) \<and> opp \<noteq> []) \<Longrightarrow>
   execute_market_loop_r clk n h t opp reports = (reports, h, opp)"
  by (subst execute_market_loop_r.simps) auto

lemma execute_market_loop_r_fill:
  "0 < quantity (h t) \<Longrightarrow> opp \<noteq> [] \<Longrightarrow> market_fill_r (clk n) h t opp = (rs, h', opp') \<Longrightarrow>
   execute_market_loop_r clk n h t opp reports =
     execute_market_loop_r clk (Suc n) h' t opp' (reports @ rs)"
  by (subst execute_market_loop_r.simps) simp

lemma match_limit_loop_r_stop:
  "\<not> (0 < quantity (h t) \<and> opp \<noteq> []) \<Longrightarrow>
   match_limit_loop_r clk n h t opp reports = (Inr reports, h, opp)"
  by (subst match_limit_loop_r.simps) auto

lemma match_limit_loop_r_raise:
  "0 < quantity (h t) \<Longrightarrow> opp \<noteq> [] \<Longrightarrow> limit_break (h t) (h (hd opp)) = Inl e \<Longrightarrow>
   match_limit_loop_r clk n h t opp reports = (Inl e, h, opp)"
  by (subst match_limit_loop_r.simps) simp

lemma match_limit_loop_r_break:
  "0 < quantity (h t) \<Longrightarrow> opp \<noteq> [] \<Longrightarrow> limit_break (h t) (h (hd opp)) = Inr True \<Longrightarrow>
   match_limit_loop_r clk n h t opp reports = (Inr reports, h, opp)"
  by (subst match_limit_loop_r.simps) simp

lemma match_limit_loop_r_fill:
  "0 < quantity (h t) \<Longrightarrow> opp \<noteq> [] \<Longrightarrow> limit_break (h t) (h (hd opp)) = Inr False \<Longrightarrow>
   limit_fill_r (clk n) h t opp = (rs, h', opp') \<Longrightarrow>
   match_limit_loop_r clk n h t opp reports =
     match_limit_loop_r clk (Suc n) h' t opp' (reports @ rs)"
  by (subst match_limit_loop_r.simps) simp

text \<open>One fill on distinct objects is the fill on their values.\<close>

lemma market_fill_r_refines:
  assumes "opp \<noteq> []" and "t \<notin> set opp" and "distinct opp"
    and "market_fill_r ts h t opp = (rs, h', opp')"
  shows "rs = [taker_report (market_fill ts (h t) (map h opp)),
               maker_report (market_fill ts (h t) (map h opp))]"
    and "h' t = taker_post (market_fill ts (h t) (map h opp))"
    and "map h' opp' = opp_post (market_fill ts (h t) (map h opp))"
    and "opp' = opp \<or> opp' = tl opp"
    and "\<And>r. r \<noteq> t \<Longrightarrow> r \<noteq> hd opp \<Longrightarrow> h' r = h r"
proof -
  from assms(1) obtain b rest where opp: "opp = b # rest" by (cases opp) auto
  with assms(2,3) have ne: "t \<noteq> b" "b \<notin> set rest" "t \<notin> set rest" by auto
  note defs = market_fill_r_def market_fill_def dec_quantity_def Let_def opp
  show "rs = [taker_report (market_fill ts (h t) (map h opp)),
               maker_report (market_fill ts (h t) (map h opp))]"
    using assms(4) ne by (auto simp: defs)
  show "h' t = taker_post (market_fill ts (h t) (map h opp))"
    using assms(4) ne by (auto simp: defs)
  show "map h' opp' = opp_post (market_fill ts (h t) (map h opp))"
    using assms(4) ne by (auto simp: defs)
  show "opp' = opp \<or> opp' = tl opp"
    using assms(4) by (auto simp: defs split: if_splits)
  show "h' r = h r" if "r \<noteq> t" "r \<noteq> hd opp" for r
    using assms(4) that by (auto simp: defs)
qed

lemma limit_fill_r_refines:
  assumes "opp \<noteq> []" and "t \<notin> set opp" and "distinct opp"
    and "limit_fill_r ts h t opp = (rs, h', opp')"
  shows "rs = [taker_report (limit_fill ts (h t) (map h opp)),
               maker_report (limit_fill ts (h t) (map h opp))]"
    and "h' t = taker_post (limit_fill ts (h t) (map h opp))"
    and "map h' opp' = opp_post (limit_fill ts (h t) (map h opp))"
    and "opp' = opp \<or> opp' = tl opp"
    and "\<And>r. r \<noteq> t \<Longrightarrow> r \<noteq> hd opp \<Longrightarrow> h' r = h r"
proof -
  from assms(1) obtain b rest where opp: "opp = b # rest" by (cases opp) auto
  with assms(2,3) have ne: "t \<noteq> b" "b \<notin> set rest" "t \<notin> set rest" by auto
  note defs = limit_fill_r_def limit_fill_def dec_quantity_def Let_def opp
  show "rs = [taker_report (limit_fill ts (h t) (map h opp)),
               maker_report (limit_fill ts (h t) (map h opp))]"
    using assms(4) ne by (auto simp: defs)
  show "h' t = taker_post (limit_fill ts (h t) (map h opp))"
    using assms(4) ne by (auto simp: defs)
  show "map h' opp' = opp_post (limit_fill ts (h t) (map h opp))"
    using assms(4) ne by (auto simp: defs)
  show "opp' = opp \<or> opp' = tl opp"
    using assms(4) by (auto simp: defs split: if_splits)
  show "h' r = h r" if "r \<noteq> t" "r \<noteq> hd opp" for r
    using assms(4) that by (auto simp: defs)
qed

lemma shrink_keeps:
  assumes "opp' = opp \<or> opp' = tl opp" and "distinct opp" and "t \<notin> set opp"
  shows "distinct opp'" and "t \<notin> set opp'" and "set opp' \<subseteq> set opp"
  using assms by (cases opp; auto)+

lemma execute_market_loop_r_refines:
  assumes "distinct opp" and "t \<notin> set opp"
  shows "case execute_market_loop_r clk n h t opp reports of
           (rs, h', opp') \<Rightarrow>
             execute_market_loop clk n (h t) (map h opp) reports = (rs, h' t, map h' opp') \<and>
             distinct opp' \<and> set opp' \<subseteq> set opp \<and>
             (\<forall>r. r \<noteq> t \<and> r \<notin> set opp \<longrightarrow> h' r = h r)"
  using assms
proof (induction clk n h t opp reports rule: execute_market_loop_r.induct)
  case (1 clk n h t opp reports)
  show ?case
  proof (cases "0 < quantity (h t) \<and> opp \<noteq> []")
    case True
    then have go: "0 < quantity (h t)" "opp \<noteq> []" by simp_all
    obtain rs1 h1 opp1 where f: "market_fill_r (clk n) h t opp = (rs1, h1, opp1)"
      by (cases "market_fill_r (clk n) h t opp") auto
    note r = market_fill_r_refines [OF go(2) "1.prems"(2,1) f]
    note k = shrink_keeps [OF r(4) "1.prems"]
    from "1.IH" [OF True f [symmetric] refl k(1,2)]
    have ih: "case execute_market_loop_r clk (Suc n) h1 t opp1 (reports @ rs1) of
           (rs, h', opp') \<Rightarrow>
             execute_market_loop clk (Suc n) (h1 t) (map h1 opp1) (reports @ rs1) =
               (rs, h' t, map h' opp') \<and>
             distinct opp' \<and> set opp' \<subseteq> set opp1 \<and>
             (\<forall>r. r \<noteq> t \<and> r \<notin> set opp1 \<longrightarrow> h' r = h1 r)"
      by simp
    have v: "execute_market_loop clk n (h t) (map h opp) reports =
             execute_market_loop clk (Suc n) (h1 t) (map h1 opp1) (reports @ rs1)"
      using go by (simp add: execute_market_loop_fill r(1,2,3))
    have fr: "h1 x = h x" if "x \<noteq> t" "x \<notin> set opp" for x
      using that go(2) by (intro r(5)) auto
    show ?thesis
      unfolding execute_market_loop_r_fill [where h = h and t = t and clk = clk and n = n, OF go f] v
      using ih k(3) fr by (auto split: prod.splits)
  next
    case False
    with "1.prems" show ?thesis
      by (auto simp: execute_market_loop_r_stop execute_market_loop_stop)
  qed
qed

lemma match_limit_loop_r_refines:
  assumes "distinct opp" and "t \<notin> set opp"
  shows "case match_limit_loop_r clk n h t opp reports of
           (res, h', opp') \<Rightarrow>
             match_limit_loop clk n (h t) (map h opp) reports = (res, h' t, map h' opp') \<and>
             distinct opp' \<and> set opp' \<subseteq> set opp \<and>
             (\<forall>r. r \<noteq> t \<and> r \<notin> set opp \<longrightarrow> h' r = h r)"
  using assms
proof (induction clk n h t opp reports rule: match_limit_loop_r.induct)
  case (1 clk n h t opp reports)
  show ?case
  proof (cases "0 < quantity (h t) \<and> opp \<noteq> []")
    case True
    then have go: "0 < quantity (h t)" "opp \<noteq> []" by simp_all
    then have hd: "hd (map h opp) = h (hd opp)" by (simp add: hd_map)
    show ?thesis
    proof (cases "h t" "h (hd opp)" rule: limit_break_cases)
      case (raise e)
      with go hd "1.prems" show ?thesis
        by (simp add: match_limit_loop_r_raise match_limit_loop_raise)
    next
      case break
      with go hd "1.prems" show ?thesis
        by (simp add: match_limit_loop_r_break match_limit_loop_break)
    next
      case fill
      obtain rs1 h1 opp1 where f: "limit_fill_r (clk n) h t opp = (rs1, h1, opp1)"
        by (cases "limit_fill_r (clk n) h t opp") auto
      note r = limit_fill_r_refines [OF go(2) "1.prems"(2,1) f]
      note k = shrink_keeps [OF r(4) "1.prems"]
      from "1.IH" [OF True fill refl f [symmetric] refl k(1,2)]
      have ih: "case match_limit_loop_r clk (Suc n) h1 t opp1 (reports @ rs1) of
           (res, h', opp') \<Rightarrow>
             match_limit_loop clk (Suc n) (h1 t) (map h1 opp1) (reports @ rs1) =
               (res, h' t, map h' opp') \<and>
             distinct opp' \<and> set opp' \<subseteq> set opp1 \<and>
             (\<forall>r. r \<noteq> t \<and> r \<notin> set opp1 \<longrightarrow> h' r = h1 r)"
        by simp
      have v: "match_limit_loop clk n (h t) (map h opp) reports =
               match_limit_loop clk (Suc n) (h1 t) (map h1 opp1) (reports @ rs1)"
        using go fill hd by (simp add: match_limit_loop_fill r(1,2,3))
      have fr: "h1 x = h x" if "x \<noteq> t" "x \<notin> set opp" for x
        using that go(2) by (intro r(5)) auto
      show ?thesis
        unfolding match_limit_loop_r_fill [where h = h and t = t and clk = clk and n = n, OF go fill f] v
        using ih k(3) fr by (auto split: prod.splits)
    qed
  next
    case False
    with "1.prems" show ?thesis
      by (auto simp: match_limit_loop_r_stop match_limit_loop_stop)
  qed
qed

lemma map_frame:
  assumes "\<forall>r. r \<noteq> t \<and> r \<notin> set opp \<longrightarrow> h' r = h r"
    and "t \<notin> set xs" and "set xs \<inter> set opp = {}"
  shows "map h' xs = map h xs"
  using assms by (intro map_cong) auto

lemma execute_market_r_refines:
  assumes "distinct (t # ref_bids lob @ ref_asks lob)"
  shows "case execute_market_r clk h lob t of
           (rs, h', lob') \<Rightarrow>
             execute_market clk (abs_book h lob) (h t) = (rs, h' t, abs_book h' lob') \<and>
             distinct (t # ref_bids lob' @ ref_asks lob') \<and>
             (\<forall>r. r \<notin> set (t # ref_bids lob @ ref_asks lob) \<longrightarrow> h' r = h r)"
proof (cases "side (h t) = ''buy''")
  case True
  obtain rs h' opp' where
    loop: "execute_market_loop_r clk 0 h t (ref_asks lob) [] = (rs, h', opp')"
    by (cases "execute_market_loop_r clk 0 h t (ref_asks lob) []") auto
  from assms have d: "distinct (ref_asks lob)" "t \<notin> set (ref_asks lob)" by auto
  from execute_market_loop_r_refines [OF d, of clk 0 h "[]"] loop
  have r: "execute_market_loop clk 0 (h t) (map h (ref_asks lob)) [] = (rs, h' t, map h' opp')"
    "distinct opp'" "set opp' \<subseteq> set (ref_asks lob)"
    "\<forall>r. r \<noteq> t \<and> r \<notin> set (ref_asks lob) \<longrightarrow> h' r = h r"
    by simp_all
  have "map h' (ref_bids lob) = map h (ref_bids lob)"
    using r(4) assms by (intro map_frame [where t = t and opp = "ref_asks lob"]) auto
  with r assms True loop show ?thesis
    by (auto simp: execute_market_r_def execute_market_def abs_book_def)
next
  case False
  obtain rs h' opp' where
    loop: "execute_market_loop_r clk 0 h t (ref_bids lob) [] = (rs, h', opp')"
    by (cases "execute_market_loop_r clk 0 h t (ref_bids lob) []") auto
  from assms have d: "distinct (ref_bids lob)" "t \<notin> set (ref_bids lob)" by auto
  from execute_market_loop_r_refines [OF d, of clk 0 h "[]"] loop
  have r: "execute_market_loop clk 0 (h t) (map h (ref_bids lob)) [] = (rs, h' t, map h' opp')"
    "distinct opp'" "set opp' \<subseteq> set (ref_bids lob)"
    "\<forall>r. r \<noteq> t \<and> r \<notin> set (ref_bids lob) \<longrightarrow> h' r = h r"
    by simp_all
  have "map h' (ref_asks lob) = map h (ref_asks lob)"
    using r(4) assms by (intro map_frame [where t = t and opp = "ref_bids lob"]) auto
  with r assms False loop show ?thesis
    by (auto simp: execute_market_r_def execute_market_def abs_book_def)
qed

lemma match_limit_r_refines:
  assumes "distinct (t # ref_bids lob @ ref_asks lob)"
  shows "case match_limit_r clk h lob t of
           (res, h', lob') \<Rightarrow>
             match_limit clk (abs_book h lob) (h t) = (res, h' t, abs_book h' lob') \<and>
             distinct (t # ref_bids lob' @ ref_asks lob') \<and>
             (\<forall>r. r \<notin> set (t # ref_bids lob @ ref_asks lob) \<longrightarrow> h' r = h r)"
proof (cases "side (h t) = ''buy''")
  case True
  obtain res h' opp' where
    loop: "match_limit_loop_r clk 0 h t (ref_asks lob) [] = (res, h', opp')"
    by (cases "match_limit_loop_r clk 0 h t (ref_asks lob) []") auto
  from assms have d: "distinct (ref_asks lob)" "t \<notin> set (ref_asks lob)" by auto
  from match_limit_loop_r_refines [OF d, of clk 0 h "[]"] loop
  have r: "match_limit_loop clk 0 (h t) (map h (ref_asks lob)) [] = (res, h' t, map h' opp')"
    "distinct opp'" "set opp' \<subseteq> set (ref_asks lob)"
    "\<forall>r. r \<noteq> t \<and> r \<notin> set (ref_asks lob) \<longrightarrow> h' r = h r"
    by simp_all
  have "map h' (ref_bids lob) = map h (ref_bids lob)"
    using r(4) assms by (intro map_frame [where t = t and opp = "ref_asks lob"]) auto
  with r assms True loop show ?thesis
    by (auto simp: match_limit_r_def match_limit_def abs_book_def)
next
  case False
  obtain res h' opp' where
    loop: "match_limit_loop_r clk 0 h t (ref_bids lob) [] = (res, h', opp')"
    by (cases "match_limit_loop_r clk 0 h t (ref_bids lob) []") auto
  from assms have d: "distinct (ref_bids lob)" "t \<notin> set (ref_bids lob)" by auto
  from match_limit_loop_r_refines [OF d, of clk 0 h "[]"] loop
  have r: "match_limit_loop clk 0 (h t) (map h (ref_bids lob)) [] = (res, h' t, map h' opp')"
    "distinct opp'" "set opp' \<subseteq> set (ref_bids lob)"
    "\<forall>r. r \<noteq> t \<and> r \<notin> set (ref_bids lob) \<longrightarrow> h' r = h r"
    by simp_all
  have "map h' (ref_asks lob) = map h (ref_asks lob)"
    using r(4) assms by (intro map_frame [where t = t and opp = "ref_bids lob"]) auto
  with r assms False loop show ?thesis
    by (auto simp: match_limit_r_def match_limit_def abs_book_def)
qed

lemma map_list_insert: "map f (list_insert idx x xs) = list_insert idx (f x) (map f xs)"
  by (simp add: list_insert_def take_map drop_map)

lemma distinct_list_insert:
  "distinct (list_insert idx x xs) \<longleftrightarrow> distinct xs \<and> x \<notin> set xs"
proof -
  have "distinct (take idx xs @ drop idx xs) = distinct xs"
    by simp
  then have d: "distinct xs \<longleftrightarrow> distinct (take idx xs) \<and> distinct (drop idx xs) \<and>
                 set (take idx xs) \<inter> set (drop idx xs) = {}"
    by (simp only: distinct_append)
  have s: "set (take idx xs) \<union> set (drop idx xs) = set xs"
    by (metis append_take_drop_id set_append)
  have "distinct (list_insert idx x xs) \<longleftrightarrow>
          distinct (take idx xs) \<and> distinct (drop idx xs) \<and>
          set (take idx xs) \<inter> set (drop idx xs) = {} \<and>
          x \<notin> set (take idx xs) \<union> set (drop idx xs)"
    by (auto simp: list_insert_def)
  then show ?thesis
    unfolding s using d by blast
qed

lemma set_list_insert: "set (list_insert idx x xs) = insert x (set xs)"
proof -
  have "set (take idx xs) \<union> set (drop idx xs) = set xs"
    by (metis append_take_drop_id set_append)
  then show ?thesis by (auto simp: list_insert_def)
qed

lemma insert_resting_r_refines:
  assumes "distinct (t # ref_bids lob @ ref_asks lob)"
  shows "case insert_resting_r h lob t of
           Inl e \<Rightarrow> insert_resting (abs_book h lob) (h t) = Inl e
         | Inr lob' \<Rightarrow>
             insert_resting (abs_book h lob) (h t) = Inr (abs_book h lob') \<and>
             distinct (ref_bids lob' @ ref_asks lob')"
  using assms
  by (auto simp: insert_resting_r_def insert_resting_def abs_book_def map_list_insert
        distinct_list_insert set_list_insert split: sum.splits)

lemma add_order_r_refines:
  assumes "distinct (t # ref_bids lob @ ref_asks lob)"
  shows "case add_order_r clk h lob t of
           (res, h', lob') \<Rightarrow>
             add_order clk (abs_book h lob) (h t) = (res, h' t, abs_book h' lob') \<and>
             distinct (ref_bids lob' @ ref_asks lob') \<and>
             (\<forall>r. r \<notin> set (t # ref_bids lob @ ref_asks lob) \<longrightarrow> h' r = h r)"
proof (cases "otype (h t) = ''market''")
  case True
  from execute_market_r_refines [OF assms, of clk h] True show ?thesis
    by (auto simp: add_order_r_def add_order_def split: prod.splits)
next
  case False
  obtain res h1 lob1 where m: "match_limit_r clk h lob t = (res, h1, lob1)"
    by (cases "match_limit_r clk h lob t") auto
  from match_limit_r_refines [OF assms, of clk h] m
  have r: "match_limit clk (abs_book h lob) (h t) = (res, h1 t, abs_book h1 lob1)"
    "distinct (t # ref_bids lob1 @ ref_asks lob1)"
    "\<forall>r. r \<notin> set (t # ref_bids lob @ ref_asks lob) \<longrightarrow> h1 r = h r"
    by simp_all
  have lp: "add_order clk (abs_book h lob) (h t) = limit_path clk (abs_book h lob) (h t)"
    using False by (rule add_order_limit_path)
  have rp: "add_order_r clk h lob t =
     (case match_limit_r clk h lob t of
        (Inl e, h', lob') \<Rightarrow> (Inl e, h', lob')
      | (Inr reports, h', lob') \<Rightarrow>
          (if quantity (h' t) > 0 then
             (case insert_resting_r h' lob' t of
                Inl e \<Rightarrow> (Inl e, h', lob')
              | Inr lob'' \<Rightarrow> (Inr reports, h', lob''))
           else (Inr reports, h', lob')))"
    using False by (simp add: add_order_r_def split: prod.splits sum.splits)
  from insert_resting_r_refines [OF r(2), of h1] r(1,2,3) show ?thesis
    unfolding lp rp m limit_path_def
    by (auto split: sum.splits)
qed

subsection \<open>Resting quantities and objects that rest twice\<close>

text \<open>
  Claim C8, as stated, fails. One buy order object submitted twice rests at two
  positions of the bid list, and every resting quantity is \<open>> 0\<close>. A market sell order
  for its quantity then fills against the head: the object's quantity becomes 0, one
  position is removed, and the other position keeps an order with remaining quantity 0.
\<close>

theorem resubmitted_object_rests_with_quantity_zero:
  "ref_bids (snd (snd submitted_twice)) = [1, 1] \<and>
   resting_positive (fst (snd submitted_twice)) (snd (snd submitted_twice)) \<and>
   0 < quantity (fst (snd submitted_twice) 2) \<and>
   ref_bids (snd (snd submitted_twice_then_sold)) = [1] \<and>
   quantity (fst (snd submitted_twice_then_sold) 1) = 0 \<and>
   \<not> resting_positive (fst (snd submitted_twice_then_sold))
        (snd (snd submitted_twice_then_sold))"
  by code_simp

text \<open>
  Claim C8, amended. If every resting order has a remaining quantity \<open>> 0\<close>, no order
  object rests at more than one position and the incoming order object is not resting in
  the book, then after \<^verbatim>\<open>add_order\<close>, whatever the incoming order and whether or not the
  call raises, every resting order has a remaining quantity \<open>> 0\<close> and no object rests
  twice. The call is then the call on the values of the objects; its reports are the
  report pairs of its fill events, and in every fill event the maker is the head of the
  opposite list and is removed from the head in that same iteration exactly when the
  fill leaves it with remaining quantity 0.
\<close>

theorem add_order_r_keeps_quantities_positive:
  assumes "distinct (t # ref_bids lob @ ref_asks lob)" and "resting_positive h lob"
  shows "case add_order_r clk h lob t of
           (res, h', lob') \<Rightarrow>
             resting_positive h' lob' \<and> distinct (ref_bids lob' @ ref_asks lob') \<and>
             add_order clk (abs_book h lob) (h t) = (res, h' t, abs_book h' lob') \<and>
             (\<forall>rs. res = Inr rs \<longrightarrow>
                rs = event_reports (add_order_events clk (abs_book h lob) (h t))) \<and>
             (\<forall>ev\<in>set (add_order_events clk (abs_book h lob) (h t)).
                opp_pre ev \<noteq> [] \<and> maker_pre ev = hd (opp_pre ev) \<and>
                opp_post ev =
                  (if quantity (maker_post ev) = 0 then tl (opp_pre ev)
                   else maker_post ev # tl (opp_pre ev)))"
proof -
  obtain res h' lob' where run: "add_order_r clk h lob t = (res, h', lob')"
    by (cases "add_order_r clk h lob t") auto
  from add_order_r_refines [OF assms(1), of clk h] run
  have v: "add_order clk (abs_book h lob) (h t) = (res, h' t, abs_book h' lob')"
    and d: "distinct (ref_bids lob' @ ref_asks lob')"
    by simp_all
  have pos: "all_positive (own_side (abs_book h lob) (h t))"
    "all_positive (opposite (abs_book h lob) (h t))"
    using assms(2)
    by (auto simp: resting_positive_def all_positive_def abs_book_def own_side_def
          opposite_def list_all_iff)
  from add_order_positive [OF pos, of clk] v
  have "all_positive (own_side (abs_book h' lob') (h t)) \<and>
        all_positive (opposite (abs_book h' lob') (h t))"
    by simp
  then have p: "resting_positive h' lob'"
    by (auto simp: resting_positive_def all_positive_def abs_book_def own_side_def
          opposite_def list_all_iff split: if_splits)
  have r: "\<forall>rs. res = Inr rs \<longrightarrow>
             rs = event_reports (add_order_events clk (abs_book h lob) (h t))"
    using add_order_reports [of clk "abs_book h lob" "h t"] v by simp
  have e: "\<forall>ev\<in>set (add_order_events clk (abs_book h lob) (h t)).
             opp_pre ev \<noteq> [] \<and> maker_pre ev = hd (opp_pre ev) \<and>
             opp_post ev =
               (if quantity (maker_post ev) = 0 then tl (opp_pre ev)
                else maker_post ev # tl (opp_pre ev))"
    by (rule add_order_events_cases) (simp_all add: market_fill_def limit_fill_def Let_def)
  from p d v r e show ?thesis
    unfolding run by simp
qed

theorem add_order_r_keeps_quantities_positive_witness:
  "distinct (6 # ref_bids example_ref_book @ ref_asks example_ref_book) \<and>
   resting_positive example_objects example_ref_book \<and>
   abs_book example_objects example_ref_book = example_book \<and>
   example_objects 6 = example_limit_buy \<and>
   ref_asks (snd (snd (add_order_r example_clock example_objects example_ref_book 6))) =
     [3, 4] \<and>
   map (\<lambda>r. quantity (fst (snd (add_order_r example_clock example_objects example_ref_book 6)) r))
     [1, 9, 3, 4] = [100, 40, 10, 50] \<and>
   (case add_order_r example_clock example_objects example_ref_book 6 of
      (res, h', lob') \<Rightarrow>
        resting_positive h' lob' \<and> distinct (ref_bids lob' @ ref_asks lob') \<and>
        add_order example_clock (abs_book example_objects example_ref_book)
          (example_objects 6) = (res, h' 6, abs_book h' lob') \<and>
        (\<forall>rs. res = Inr rs \<longrightarrow>
           rs = event_reports
                  (add_order_events example_clock
                     (abs_book example_objects example_ref_book) (example_objects 6))) \<and>
        (\<forall>ev\<in>set (add_order_events example_clock
                     (abs_book example_objects example_ref_book) (example_objects 6)).
           opp_pre ev \<noteq> [] \<and> maker_pre ev = hd (opp_pre ev) \<and>
           opp_post ev =
             (if quantity (maker_post ev) = 0 then tl (opp_pre ev)
              else maker_post ev # tl (opp_pre ev))))"
proof -
  have a: "distinct (6 # ref_bids example_ref_book @ ref_asks example_ref_book)"
    by code_simp
  have b: "resting_positive example_objects example_ref_book"
    by code_simp
  have c: "abs_book example_objects example_ref_book = example_book"
    by code_simp
  have d: "example_objects 6 = example_limit_buy"
    by code_simp
  have e: "ref_asks (snd (snd (add_order_r example_clock example_objects example_ref_book 6))) =
     [3, 4]"
    by code_simp
  have f: "map (\<lambda>r. quantity (fst (snd (add_order_r example_clock example_objects example_ref_book 6)) r))
     [1, 9, 3, 4] = [100, 40, 10, 50]"
    by code_simp
  from a b c d e f add_order_r_keeps_quantities_positive [OF a b, of example_clock]
  show ?thesis
    by iprover
qed

end
